theory Spec2Isabelle
  imports Main
begin

section \<open>Data model of the Gomoku engine\<close>

text \<open>
  The engine (class \<open>GomokuEngine\<close>) owns a 15 x 15 board of C++ \<open>int\<close> cells
  (\<open>std::vector<std::vector<int>>\<close>), a game-over flag, a winner code, a difficulty and a
  stack of moves. C++ \<open>int\<close> values are modelled as \<open>int\<close>: the only arithmetic the
  engine performs is on small indices, on a run counter bounded by 9 and on the evaluation
  score, whose absolute value is bounded by 572 * 100000 (lemma \<open>evaluateBoard_bounds\<close>),
  so no operation wraps around.
\<close>

abbreviation BOARD_SIZE :: int where "BOARD_SIZE \<equiv> 15"
abbreviation EMPTY :: int where "EMPTY \<equiv> 0"
abbreviation PLAYER :: int where "PLAYER \<equiv> 1"
abbreviation AI :: int where "AI \<equiv> 2"

definition INT_MIN :: int where "INT_MIN = - 2147483648"
definition INT_MAX :: int where "INT_MAX = 2147483647"

type_synonym board = "int list list"

record Move =
  row :: int
  col :: int
  player :: int

datatype Difficulty = EASY | MEDIUM | HARD

text \<open>\<open>static_cast<int>(difficulty)\<close>: the enumerators are 1, 3 and 5.\<close>

fun difficulty_depth :: "Difficulty \<Rightarrow> nat" where
  "difficulty_depth EASY = 1"
| "difficulty_depth MEDIUM = 3"
| "difficulty_depth HARD = 5"

text \<open>The stack \<open>moveHistory\<close> is a list whose head is the top of the stack.\<close>

record GomokuEngine =
  board :: board
  gameOver :: bool
  winner :: int
  difficulty :: Difficulty
  moveHistory :: "Move list"

text \<open>\<open>board[r][c]\<close> and \<open>board[r][c] = v\<close>.\<close>

definition cell :: "board \<Rightarrow> int \<Rightarrow> int \<Rightarrow> int" where
  "cell b r c = b ! nat r ! nat c"

definition set_cell :: "board \<Rightarrow> int \<Rightarrow> int \<Rightarrow> int \<Rightarrow> board" where
  "set_cell b r c v = b[nat r := (b ! nat r)[nat c := v]]"

definition isValidPosition :: "int \<Rightarrow> int \<Rightarrow> bool" where
  "isValidPosition r c \<longleftrightarrow> r \<ge> 0 \<and> r < BOARD_SIZE \<and> c \<ge> 0 \<and> c < BOARD_SIZE"

text \<open>The shape every board of the engine has: 15 rows of 15 cells.\<close>

definition wf_board :: "board \<Rightarrow> bool" where
  "wf_board b \<longleftrightarrow> length b = 15 \<and> list_all (\<lambda>r. length r = 15) b"

definition empty_board :: board where
  "empty_board = replicate (nat BOARD_SIZE) (replicate (nat BOARD_SIZE) EMPTY)"

section \<open>Win detector\<close>

text \<open>
  The four scanning loops of \<open>checkWin\<close>. Each carries the counter \<open>count\<close>, returns
  \<open>True\<close> at the early \<open>return true\<close> and \<open>False\<close> when the loop runs to its end.
\<close>

fun checkWin_h :: "board \<Rightarrow> int \<Rightarrow> int \<Rightarrow> int list \<Rightarrow> int \<Rightarrow> bool" where
  "checkWin_h b r p [] count = False"
| "checkWin_h b r p (c # cs) count =
     (if cell b r c = p
      then (if count + 1 \<ge> 5 then True else checkWin_h b r p cs (count + 1))
      else checkWin_h b r p cs 0)"

fun checkWin_v :: "board \<Rightarrow> int \<Rightarrow> int \<Rightarrow> int list \<Rightarrow> int \<Rightarrow> bool" where
  "checkWin_v b c p [] count = False"
| "checkWin_v b c p (r # rs) count =
     (if cell b r c = p
      then (if count + 1 \<ge> 5 then True else checkWin_v b c p rs (count + 1))
      else checkWin_v b c p rs 0)"

fun checkWin_d1 :: "board \<Rightarrow> int \<Rightarrow> int \<Rightarrow> int \<Rightarrow> int list \<Rightarrow> int \<Rightarrow> bool" where
  "checkWin_d1 b rw cl p [] count = False"
| "checkWin_d1 b rw cl p (i # is) count =
     (let r = rw + i; c = cl + i in
      if r \<ge> 0 \<and> r < BOARD_SIZE \<and> c \<ge> 0 \<and> c < BOARD_SIZE
      then (if cell b r c = p
            then (if count + 1 \<ge> 5 then True else checkWin_d1 b rw cl p is (count + 1))
            else checkWin_d1 b rw cl p is 0)
      else checkWin_d1 b rw cl p is count)"

fun checkWin_d2 :: "board \<Rightarrow> int \<Rightarrow> int \<Rightarrow> int \<Rightarrow> int list \<Rightarrow> int \<Rightarrow> bool" where
  "checkWin_d2 b rw cl p [] count = False"
| "checkWin_d2 b rw cl p (i # is) count =
     (let r = rw + i; c = cl - i in
      if r \<ge> 0 \<and> r < BOARD_SIZE \<and> c \<ge> 0 \<and> c < BOARD_SIZE
      then (if cell b r c = p
            then (if count + 1 \<ge> 5 then True else checkWin_d2 b rw cl p is (count + 1))
            else checkWin_d2 b rw cl p is 0)
      else checkWin_d2 b rw cl p is count)"

definition checkWin :: "board \<Rightarrow> int \<Rightarrow> int \<Rightarrow> int \<Rightarrow> bool" where
  "checkWin b rw cl p =
     (if checkWin_h b rw p [max 0 (cl - 4) .. min (BOARD_SIZE - 1) (cl + 4)] 0 then True
      else if checkWin_v b cl p [max 0 (rw - 4) .. min (BOARD_SIZE - 1) (rw + 4)] 0 then True
      else if checkWin_d1 b rw cl p [-4 .. 4] 0 then True
      else if checkWin_d2 b rw cl p [-4 .. 4] 0 then True
      else False)"

section \<open>Board state operations\<close>

definition resetGame :: "GomokuEngine \<Rightarrow> GomokuEngine" where
  "resetGame s = s\<lparr>board := empty_board, gameOver := False, winner := EMPTY, moveHistory := []\<rparr>"

text \<open>The constructor: \<open>resetGame\<close>, then the default difficulty.\<close>

definition new_engine :: GomokuEngine where
  "new_engine =
     \<lparr>board = empty_board, gameOver = False, winner = EMPTY, difficulty = MEDIUM,
      moveHistory = []\<rparr>"

definition setDifficulty :: "Difficulty \<Rightarrow> GomokuEngine \<Rightarrow> GomokuEngine" where
  "setDifficulty level s = s\<lparr>difficulty := level\<rparr>"

definition makeMove :: "int \<Rightarrow> int \<Rightarrow> int \<Rightarrow> GomokuEngine \<Rightarrow> bool \<times> GomokuEngine" where
  "makeMove r c p s =
     (if \<not> isValidPosition r c \<or> cell (board s) r c \<noteq> EMPTY \<or> gameOver s then (False, s)
      else
        let s1 = s\<lparr>board := set_cell (board s) r c p\<rparr>;
            s2 = s1\<lparr>moveHistory := \<lparr>row = r, col = c, player = p\<rparr> # moveHistory s1\<rparr>
        in if checkWin (board s2) r c p
           then (True, s2\<lparr>gameOver := True, winner := p\<rparr>)
           else (True, s2))"

text \<open>
  The loop of \<open>undoMove\<close>: at most \<open>n\<close> iterations, leaving at the \<open>break\<close> when the
  stack is empty.
\<close>

fun undoMove_loop :: "nat \<Rightarrow> board \<Rightarrow> Move list \<Rightarrow> board \<times> Move list" where
  "undoMove_loop 0 b h = (b, h)"
| "undoMove_loop (Suc n) b [] = (b, [])"
| "undoMove_loop (Suc n) b (lastMove # h) =
     undoMove_loop n (set_cell b (row lastMove) (col lastMove) EMPTY) h"

definition undoMove :: "GomokuEngine \<Rightarrow> bool \<times> GomokuEngine" where
  "undoMove s =
     (if moveHistory s = [] then (False, s)
      else
        let (b, h) = undoMove_loop 2 (board s) (moveHistory s);
            s1 = s\<lparr>board := b, moveHistory := h\<rparr>;
            s2 = (if gameOver s1 then s1\<lparr>gameOver := False, winner := EMPTY\<rparr> else s1)
        in (True, s2))"

definition canUndo :: "GomokuEngine \<Rightarrow> bool" where
  "canUndo s \<longleftrightarrow> moveHistory s \<noteq> []"

section \<open>Move generator\<close>

text \<open>
  \<open>hasNeighbors\<close>: two nested loops over \<open>dr, dc\<close> in \<open>-1 .. 1\<close>; \<open>continue\<close> at the
  centre, \<open>return true\<close> at the first occupied in-range neighbour.
\<close>

fun hasNeighbors_dc :: "board \<Rightarrow> int \<Rightarrow> int \<Rightarrow> int \<Rightarrow> int list \<Rightarrow> bool" where
  "hasNeighbors_dc b rw cl dr [] = False"
| "hasNeighbors_dc b rw cl dr (dc # dcs) =
     (if dr = 0 \<and> dc = 0 then hasNeighbors_dc b rw cl dr dcs
      else
        let r = rw + dr; c = cl + dc in
        if isValidPosition r c \<and> cell b r c \<noteq> EMPTY then True
        else hasNeighbors_dc b rw cl dr dcs)"

fun hasNeighbors_dr :: "board \<Rightarrow> int \<Rightarrow> int \<Rightarrow> int list \<Rightarrow> bool" where
  "hasNeighbors_dr b rw cl [] = False"
| "hasNeighbors_dr b rw cl (dr # drs) =
     (if hasNeighbors_dc b rw cl dr [-1 .. 1] then True else hasNeighbors_dr b rw cl drs)"

definition hasNeighbors :: "board \<Rightarrow> int \<Rightarrow> int \<Rightarrow> bool" where
  "hasNeighbors b rw cl = hasNeighbors_dr b rw cl [-1 .. 1]"

text \<open>
  \<open>generateMoves\<close>: the vector \<open>moves\<close> is the accumulator of the two nested loops,
  \<open>push_back\<close> appends at its end.
\<close>

definition generateMoves :: "board \<Rightarrow> (int \<times> int) list" where
  "generateMoves b =
     (let moves =
            fold (\<lambda>r moves.
              fold (\<lambda>c moves.
                if cell b r c = EMPTY \<and> hasNeighbors b r c then moves @ [(r, c)] else moves)
                [0 .. BOARD_SIZE - 1] moves)
              [0 .. BOARD_SIZE - 1] []
      in if moves = []
         then fold (\<lambda>r moves.
                fold (\<lambda>c moves. if cell b r c = EMPTY then moves @ [(r, c)] else moves)
                  [0 .. BOARD_SIZE - 1] moves)
                [0 .. BOARD_SIZE - 1] moves
         else moves)"

section \<open>Evaluator\<close>

definition evaluateSequence :: "int \<Rightarrow> int \<Rightarrow> int" where
  "evaluateSequence aiCount playerCount =
     (if aiCount > 0 \<and> playerCount > 0 then 0
      else if aiCount > 0 \<and> aiCount = 5 then 100000
      else if aiCount > 0 \<and> aiCount = 4 then 10000
      else if aiCount > 0 \<and> aiCount = 3 then 1000
      else if aiCount > 0 \<and> aiCount = 2 then 100
      else if aiCount > 0 \<and> aiCount = 1 then 10
      else if playerCount > 0 \<and> playerCount = 5 then - 100000
      else if playerCount > 0 \<and> playerCount = 4 then - 10000
      else if playerCount > 0 \<and> playerCount = 3 then - 1000
      else if playerCount > 0 \<and> playerCount = 2 then - 100
      else if playerCount > 0 \<and> playerCount = 1 then - 10
      else 0)"

text \<open>
  The innermost loop \<open>for (int i = 0; i < 5; ++i)\<close> of \<open>evaluateBoard\<close>: it counts the
  cells equal to \<open>AI\<close> and, among the others, those equal to \<open>PLAYER\<close>, over the five cells
  \<open>pos 0, ..., pos 4\<close>. The result is the pair \<open>(aiCount, playerCount)\<close>.
\<close>

definition count_window :: "board \<Rightarrow> (int \<Rightarrow> int \<times> int) \<Rightarrow> int \<times> int" where
  "count_window b pos =
     fold (\<lambda>i (aiCount, playerCount).
             if cell b (fst (pos i)) (snd (pos i)) = AI then (aiCount + 1, playerCount)
             else if cell b (fst (pos i)) (snd (pos i)) = PLAYER then (aiCount, playerCount + 1)
             else (aiCount, playerCount))
          [0 .. 4] (0, 0)"

definition window_value :: "board \<Rightarrow> (int \<Rightarrow> int \<times> int) \<Rightarrow> int" where
  "window_value b pos = (case count_window b pos of (a, p) \<Rightarrow> evaluateSequence a p)"

definition evaluateBoard :: "board \<Rightarrow> int" where
  "evaluateBoard b =
     (let score = 0;
          score = fold (\<lambda>r score.
                    fold (\<lambda>c score. score + window_value b (\<lambda>i. (r, c + i)))
                      [0 .. BOARD_SIZE - 4 - 1] score)
                    [0 .. BOARD_SIZE - 1] score;
          score = fold (\<lambda>c score.
                    fold (\<lambda>r score. score + window_value b (\<lambda>i. (r + i, c)))
                      [0 .. BOARD_SIZE - 4 - 1] score)
                    [0 .. BOARD_SIZE - 1] score;
          score = fold (\<lambda>r score.
                    fold (\<lambda>c score. score + window_value b (\<lambda>i. (r + i, c + i)))
                      [0 .. BOARD_SIZE - 4 - 1] score)
                    [0 .. BOARD_SIZE - 4 - 1] score;
          score = fold (\<lambda>r score.
                    fold (\<lambda>c score. score + window_value b (\<lambda>i. (r + i, c - i)))
                      [4 .. BOARD_SIZE - 1] score)
                    [0 .. BOARD_SIZE - 4 - 1] score
      in score)"

section \<open>Search\<close>

text \<open>
  \<open>alphaBetaPruning\<close> mutates the board in place and restores it, so the model threads the
  engine through every call and returns it with the value. The depth is a natural number:
  the function is private and only ever called with \<open>static_cast<int>(difficulty)\<close>, one of
  1, 3, 5, and with \<open>depth - 1\<close> below a depth that is not 0.

  The two range-for loops of the function are \<open>alphaBeta_max\<close> and \<open>alphaBeta_min\<close>;
  leaving at \<open>break\<close> returns the accumulated value. Their parameter \<open>search\<close> stands for
  the recursive call in the loop body, \<open>alphaBetaPruning(depth - 1, alpha, beta, false)\<close>
  in the maximizing loop and \<open>alphaBetaPruning(depth - 1, alpha, beta, true)\<close> in the
  minimizing one; \<open>alphaBetaPruning\<close> below passes exactly these.
\<close>

fun alphaBeta_max ::
  "(int \<Rightarrow> int \<Rightarrow> GomokuEngine \<Rightarrow> int \<times> GomokuEngine) \<Rightarrow> (int \<times> int) list \<Rightarrow>
   int \<Rightarrow> int \<Rightarrow> int \<Rightarrow> GomokuEngine \<Rightarrow> int \<times> GomokuEngine"
where
  "alphaBeta_max search [] alpha beta maxEval s = (maxEval, s)"
| "alphaBeta_max search (move # moves) alpha beta maxEval s =
     (let r = fst move; c = snd move;
          s1 = s\<lparr>board := set_cell (board s) r c AI\<rparr>;
          (eval, s2) = search alpha beta s1;
          s3 = s2\<lparr>board := set_cell (board s2) r c EMPTY\<rparr>;
          maxEval = max maxEval eval;
          alpha = max alpha eval
      in if beta \<le> alpha then (maxEval, s3)
         else alphaBeta_max search moves alpha beta maxEval s3)"

fun alphaBeta_min ::
  "(int \<Rightarrow> int \<Rightarrow> GomokuEngine \<Rightarrow> int \<times> GomokuEngine) \<Rightarrow> (int \<times> int) list \<Rightarrow>
   int \<Rightarrow> int \<Rightarrow> int \<Rightarrow> GomokuEngine \<Rightarrow> int \<times> GomokuEngine"
where
  "alphaBeta_min search [] alpha beta minEval s = (minEval, s)"
| "alphaBeta_min search (move # moves) alpha beta minEval s =
     (let r = fst move; c = snd move;
          s1 = s\<lparr>board := set_cell (board s) r c PLAYER\<rparr>;
          (eval, s2) = search alpha beta s1;
          s3 = s2\<lparr>board := set_cell (board s2) r c EMPTY\<rparr>;
          minEval = min minEval eval;
          beta = min beta eval
      in if beta \<le> alpha then (minEval, s3)
         else alphaBeta_min search moves alpha beta minEval s3)"

primrec alphaBetaPruning ::
  "nat \<Rightarrow> int \<Rightarrow> int \<Rightarrow> bool \<Rightarrow> GomokuEngine \<Rightarrow> int \<times> GomokuEngine"
where
  "alphaBetaPruning 0 alpha beta maximizingPlayer s = (evaluateBoard (board s), s)"
| "alphaBetaPruning (Suc depth) alpha beta maximizingPlayer s =
     (if gameOver s then (evaluateBoard (board s), s)
      else
        let moves = generateMoves (board s) in
        if maximizingPlayer
        then alphaBeta_max (\<lambda>alpha beta. alphaBetaPruning depth alpha beta False)
               moves alpha beta INT_MIN s
        else alphaBeta_min (\<lambda>alpha beta. alphaBetaPruning depth alpha beta True)
               moves alpha beta INT_MAX s)"

text \<open>The loop of \<open>getBestMove\<close> over the candidate moves.\<close>

fun getBestMove_loop ::
  "nat \<Rightarrow> (int \<times> int) list \<Rightarrow> int \<Rightarrow> int \<times> int \<Rightarrow> GomokuEngine \<Rightarrow> (int \<times> int) \<times> GomokuEngine"
where
  "getBestMove_loop depth [] bestScore bestMove s = (bestMove, s)"
| "getBestMove_loop depth (move # moves) bestScore bestMove s =
     (let r = fst move; c = snd move;
          s1 = s\<lparr>board := set_cell (board s) r c AI\<rparr>;
          (score, s2) = alphaBetaPruning depth INT_MIN INT_MAX False s1;
          s3 = s2\<lparr>board := set_cell (board s2) r c EMPTY\<rparr>
      in if score > bestScore then getBestMove_loop depth moves score move s3
         else getBestMove_loop depth moves bestScore bestMove s3)"

definition getBestMove :: "GomokuEngine \<Rightarrow> (int \<times> int) \<times> GomokuEngine" where
  "getBestMove s =
     (let moves = generateMoves (board s) in
      if moves = [] \<and> cell (board s) (BOARD_SIZE div 2) (BOARD_SIZE div 2) = EMPTY
      then ((BOARD_SIZE div 2, BOARD_SIZE div 2), s)
      else getBestMove_loop (difficulty_depth (difficulty s)) moves INT_MIN (-1, -1) s)"

section \<open>Notions used to state the properties\<close>

text \<open>The number of non-Empty cells of a board.\<close>

definition count_stones :: "board \<Rightarrow> nat" where
  "count_stones b = sum_list (map (\<lambda>rw. length (filter (\<lambda>v. v \<noteq> EMPTY) rw)) b)"

text \<open>
  A well-formed engine state: a 15 x 15 board, and every recorded move names a cell of the
  board (otherwise \<open>undoMove\<close> would write outside the vectors).
\<close>

definition wf_engine :: "GomokuEngine \<Rightarrow> bool" where
  "wf_engine s \<longleftrightarrow>
     wf_board (board s) \<and> list_all (\<lambda>m. isValidPosition (row m) (col m)) (moveHistory s)"

text \<open>
  The cells of the board in row-major order (top to bottom, left to right), and the order
  itself.
\<close>

definition row_major_cells :: "(int \<times> int) list" where
  "row_major_cells = concat (map (\<lambda>r. map (\<lambda>c. (r, c)) [0 .. BOARD_SIZE - 1]) [0 .. BOARD_SIZE - 1])"

definition row_major_less :: "int \<times> int \<Rightarrow> int \<times> int \<Rightarrow> bool" where
  "row_major_less x y \<longleftrightarrow> fst x < fst y \<or> (fst x = fst y \<and> snd x < snd y)"

text \<open>
  The Moore neighbourhood of a cell, clipped at the board edges, and the candidate cells as
  the specification describes them: the Empty cells with an occupied neighbour, and all
  Empty cells.
\<close>

definition moore_neighbors :: "int \<Rightarrow> int \<Rightarrow> (int \<times> int) list" where
  "moore_neighbors r c =
     filter (\<lambda>(r', c'). isValidPosition r' c')
       [(r - 1, c - 1), (r - 1, c), (r - 1, c + 1),
        (r, c - 1), (r, c + 1),
        (r + 1, c - 1), (r + 1, c), (r + 1, c + 1)]"

definition occupied_neighbor :: "board \<Rightarrow> int \<Rightarrow> int \<Rightarrow> bool" where
  "occupied_neighbor b r c = list_ex (\<lambda>(r', c'). cell b r' c' \<noteq> EMPTY) (moore_neighbors r c)"

definition near_cells :: "board \<Rightarrow> (int \<times> int) list" where
  "near_cells b = filter (\<lambda>(r, c). cell b r c = EMPTY \<and> occupied_neighbor b r c) row_major_cells"

definition empty_cells :: "board \<Rightarrow> (int \<times> int) list" where
  "empty_cells b = filter (\<lambda>(r, c). cell b r c = EMPTY) row_major_cells"

text \<open>
  The public operations of the engine, and a run of a sequence of them. \<open>player_ok\<close>
  restricts \<open>makeMove\<close> to the two player codes.
\<close>

datatype operation =
    MakeMove int int int
  | UndoMove
  | ResetGame
  | GetBestMove
  | SetDifficulty Difficulty

fun apply_operation :: "operation \<Rightarrow> GomokuEngine \<Rightarrow> GomokuEngine" where
  "apply_operation (MakeMove r c p) s = snd (makeMove r c p s)"
| "apply_operation UndoMove s = snd (undoMove s)"
| "apply_operation ResetGame s = resetGame s"
| "apply_operation GetBestMove s = snd (getBestMove s)"
| "apply_operation (SetDifficulty level) s = setDifficulty level s"

fun player_ok :: "operation \<Rightarrow> bool" where
  "player_ok (MakeMove r c p) = (p = PLAYER \<or> p = AI)"
| "player_ok _ = True"

definition run :: "operation list \<Rightarrow> GomokuEngine \<Rightarrow> GomokuEngine" where
  "run ops s = fold apply_operation ops s"

text \<open>
  The invariant behind the history length: every recorded move names a distinct, occupied
  cell of the board, and there are as many records as stones.
\<close>

definition history_inv :: "board \<Rightarrow> Move list \<Rightarrow> bool" where
  "history_inv b h \<longleftrightarrow>
     wf_board b \<and>
     (\<forall>m \<in> set h. isValidPosition (row m) (col m) \<and> cell b (row m) (col m) \<noteq> EMPTY) \<and>
     distinct (map (\<lambda>m. (row m, col m)) h) \<and>
     length h = count_stones b"

text \<open>
  The four directions of a line (along a row, along a column, and the two diagonals), the
  five cells of the window that starts at a cell and runs in a direction, and the windows
  that fit fully on the board.
\<close>

definition directions :: "(int \<times> int) list" where
  "directions = [(0, 1), (1, 0), (1, 1), (1, -1)]"

definition window_cells :: "int \<times> int \<Rightarrow> int \<times> int \<Rightarrow> (int \<times> int) list" where
  "window_cells d start = map (\<lambda>i. (fst start + i * fst d, snd start + i * snd d)) [0 .. 4]"

definition fits_on_board :: "(int \<times> int) list \<Rightarrow> bool" where
  "fits_on_board w = list_all (\<lambda>(r, c). isValidPosition r c) w"

definition windows_along :: "int \<times> int \<Rightarrow> (int \<times> int) list list" where
  "windows_along d = filter fits_on_board (map (window_cells d) row_major_cells)"

definition all_windows :: "(int \<times> int) list list" where
  "all_windows = concat (map windows_along directions)"

text \<open>
  The score of one window as the specification words it: nothing for a window with stones
  of both players or with no stone, \<open>10 ^ n\<close> for \<open>n\<close> stones of the automated player
  alone (10, 100, 1000, 10000, 100000), the same negated for the opponent alone.
\<close>

definition stones_of :: "board \<Rightarrow> int \<Rightarrow> (int \<times> int) list \<Rightarrow> nat" where
  "stones_of b p w = length (filter (\<lambda>(r, c). cell b r c = p) w)"

definition window_score :: "board \<Rightarrow> (int \<times> int) list \<Rightarrow> int" where
  "window_score b w =
     (let a = stones_of b AI w; p = stones_of b PLAYER w in
      if a > 0 \<and> p > 0 then 0
      else if a = 0 \<and> p = 0 then 0
      else if p = 0 then 10 ^ a
      else - (10 ^ p))"

text \<open>
  A win at \<open>(r, c)\<close> as the specification words it: in one of the four directions, five
  consecutive cells among the offsets \<open>-4 .. 4\<close> from \<open>(r, c)\<close> are on the board and hold
  the player's code. \<open>five_run\<close> is the run that starts at offset \<open>k\<close>.
\<close>

definition five_run :: "board \<Rightarrow> int \<Rightarrow> int \<Rightarrow> int \<Rightarrow> int \<times> int \<Rightarrow> int \<Rightarrow> bool" where
  "five_run b p r c d k =
     list_all (\<lambda>j. isValidPosition (r + (k + j) * fst d) (c + (k + j) * snd d) \<and>
                    cell b (r + (k + j) * fst d) (c + (k + j) * snd d) = p) [0 .. 4]"

definition wins_at :: "board \<Rightarrow> int \<Rightarrow> int \<Rightarrow> int \<Rightarrow> bool" where
  "wins_at b r c p = list_ex (\<lambda>d. list_ex (\<lambda>k. five_run b p r c d k) [-4 .. 0]) directions"

text \<open>The scanning loop shared by the four directions, on the list of cell tests.\<close>

fun run_scan :: "bool list \<Rightarrow> int \<Rightarrow> bool" where
  "run_scan [] n = False"
| "run_scan (x # xs) n =
     (if x then (if n + 1 \<ge> 5 then True else run_scan xs (n + 1)) else run_scan xs 0)"

text \<open>
  Exhaustive minimax, as the specification words it: the same depth-limited search, with
  the same candidate order, the same base case and the same initial values, on copies of
  the engine and without any cutoff; and the move it selects, with the same strictly-greater
  tie-breaking as \<open>getBestMove\<close>.
\<close>

primrec minimax :: "nat \<Rightarrow> bool \<Rightarrow> GomokuEngine \<Rightarrow> int" where
  "minimax 0 maximizingPlayer s = evaluateBoard (board s)"
| "minimax (Suc depth) maximizingPlayer s =
     (if gameOver s then evaluateBoard (board s)
      else
        let moves = generateMoves (board s) in
        if maximizingPlayer
        then fold (\<lambda>move maxEval.
               max maxEval
                 (minimax depth False (s\<lparr>board := set_cell (board s) (fst move) (snd move) AI\<rparr>)))
               moves INT_MIN
        else fold (\<lambda>move minEval.
               min minEval
                 (minimax depth True (s\<lparr>board := set_cell (board s) (fst move) (snd move) PLAYER\<rparr>)))
               moves INT_MAX)"

definition minimax_bestMove :: "GomokuEngine \<Rightarrow> int \<times> int" where
  "minimax_bestMove s =
     (let moves = generateMoves (board s) in
      if moves = [] \<and> cell (board s) (BOARD_SIZE div 2) (BOARD_SIZE div 2) = EMPTY
      then (BOARD_SIZE div 2, BOARD_SIZE div 2)
      else fst (fold (\<lambda>move (bestMove, bestScore).
                  let score = minimax (difficulty_depth (difficulty s)) False
                                (s\<lparr>board := set_cell (board s) (fst move) (snd move) AI\<rparr>)
                  in if score > bestScore then (move, score) else (bestMove, bestScore))
                moves ((-1, -1), INT_MIN)))"

text \<open>
  The fail-soft relation between the minimax value \<open>v\<close> and the value \<open>r\<close> returned by a
  search with window \<open>(a, b)\<close>.
\<close>

definition fail_soft :: "int \<Rightarrow> int \<Rightarrow> int \<Rightarrow> int \<Rightarrow> bool" where
  "fail_soft a b v r \<longleftrightarrow> (r \<le> a \<longrightarrow> v \<le> r) \<and> (a < r \<and> r < b \<longrightarrow> r = v) \<and> (b \<le> r \<longrightarrow> r \<le> v)"

text \<open>
  Notions for the opening move. \<open>window_count p\<close> counts, per direction, the offsets
  \<open>i\<close> in \<open>0 .. 4\<close> for which the window that starts \<open>i\<close> cells before \<open>p\<close> fits on the
  board: the number of windows through \<open>p\<close>. \<open>toward_center p\<close> is a neighbour of \<open>p\<close>
  one step nearer the centre, \<open>one_stone\<close> and \<open>two_stones\<close> are the boards the search
  visits from the empty board, and \<open>opening_score p\<close> is the value the search gives to the
  candidate \<open>p\<close> there at depth 1.
\<close>

definition window_count :: "int \<times> int \<Rightarrow> nat" where
  "window_count p =
     sum_list (map (\<lambda>d. length (filter (\<lambda>i. fits_on_board
        (window_cells d (fst p - i * fst d, snd p - i * snd d))) [0 .. 4])) directions)"

definition toward_center :: "int \<times> int \<Rightarrow> int \<times> int" where
  "toward_center p =
     (if p = (7, 7) then (7, 8)
      else ((if fst p < 7 then fst p + 1 else if fst p > 7 then fst p - 1 else fst p),
            (if snd p < 7 then snd p + 1 else if snd p > 7 then snd p - 1 else snd p)))"

definition adjacent :: "int \<times> int \<Rightarrow> int \<times> int \<Rightarrow> bool" where
  "adjacent p q \<longleftrightarrow> p \<noteq> q \<and> \<bar>fst p - fst q\<bar> \<le> 1 \<and> \<bar>snd p - snd q\<bar> \<le> 1"

definition two_stones :: "int \<times> int \<Rightarrow> int \<times> int \<Rightarrow> board" where
  "two_stones p q =
     set_cell (set_cell empty_board (fst p) (snd p) AI) (fst q) (snd q) PLAYER"

definition one_stone :: "int \<times> int \<Rightarrow> board" where
  "one_stone p = set_cell empty_board (fst p) (snd p) AI"

definition opening_score :: "int \<times> int \<Rightarrow> int" where
  "opening_score p =
     fold (\<lambda>q minEval. min minEval (evaluateBoard (two_stones p q)))
       (generateMoves (one_stone p)) INT_MAX"

section \<open>Cells of a well-formed board\<close>

lemma wf_board_iff: "wf_board b \<longleftrightarrow> length b = 15 \<and> (\<forall>i<15. length (b ! i) = 15)"
  by (auto simp: wf_board_def list_all_length)

lemma wf_board_set_cell [simp]: "wf_board (set_cell b r c v) = wf_board b"
proof (cases "nat r < length b")
  case True
  have "length (b[nat r := (b ! nat r)[nat c := v]] ! i) = length (b ! i)" for i
    using True by (cases "i = nat r") simp_all
  then show ?thesis by (simp add: wf_board_iff set_cell_def)
next
  case False
  then show ?thesis by (simp add: set_cell_def list_update_beyond)
qed

lemma wf_board_empty [simp]: "wf_board empty_board"
  by (simp add: wf_board_def empty_board_def list_all_iff)

lemma cell_set_cell:
  assumes "wf_board b" "isValidPosition r c" "isValidPosition r' c'"
  shows "cell (set_cell b r c v) r' c' = (if r' = r \<and> c' = c then v else cell b r' c')"
proof -
  have len: "length b = 15" and rows: "\<And>i. i < 15 \<Longrightarrow> length (b ! i) = 15"
    using assms(1) by (auto simp: wf_board_iff)
  have r: "nat r < 15" "nat c < 15" "nat r' < 15" "nat c' < 15" "0 \<le> r" "0 \<le> c" "0 \<le> r'" "0 \<le> c'"
    using assms(2,3) by (auto simp: isValidPosition_def)
  show ?thesis
    using r len rows[of "nat r"]
    by (auto simp: cell_def set_cell_def nth_list_update)
qed

lemma set_cell_restore: "cell b r c = v \<Longrightarrow> set_cell (set_cell b r c w) r c v = b"
  by (cases "nat r < length b") (auto simp: cell_def set_cell_def list_update_beyond)

lemma set_cell_same: "cell b r c = v \<Longrightarrow> set_cell b r c v = b"
  by (auto simp: cell_def set_cell_def)

lemma cell_empty_board: "isValidPosition r c \<Longrightarrow> cell empty_board r c = EMPTY"
  by (auto simp: isValidPosition_def cell_def empty_board_def)

section \<open>Placing a stone\<close>

text \<open>
  C1. On a 15 x 15 board, \<open>makeMove\<close> returns false and leaves the engine as it was exactly
  when the coordinates are out of range, or the target cell is not Empty, or the game is
  already decided. When it returns true, the board is still 15 x 15, the cell \<open>(r, c)\<close>
  holds \<open>p\<close> and every other cell is unchanged, exactly one move \<open>(r, c, p)\<close> is pushed on
  the history, the difficulty is unchanged, and the game is decided, with winner \<open>p\<close>,
  exactly when \<open>checkWin\<close> reports a win at \<open>(r, c)\<close> on the new board (otherwise the status
  stays as it was).
\<close>

theorem makeMove_spec:
  assumes "wf_board (board s)"
  shows "((fst (makeMove r c p s) = False \<and> snd (makeMove r c p s) = s) \<longleftrightarrow>
            (\<not> isValidPosition r c \<or> cell (board s) r c \<noteq> EMPTY \<or> gameOver s)) \<and>
         (fst (makeMove r c p s) = False \<longrightarrow> snd (makeMove r c p s) = s) \<and>
         (fst (makeMove r c p s) = True \<longrightarrow>
            wf_board (board (snd (makeMove r c p s))) \<and>
            (\<forall>r' c'. isValidPosition r' c' \<longrightarrow>
               cell (board (snd (makeMove r c p s))) r' c' =
                 (if r' = r \<and> c' = c then p else cell (board s) r' c')) \<and>
            moveHistory (snd (makeMove r c p s)) =
              \<lparr>row = r, col = c, player = p\<rparr> # moveHistory s \<and>
            difficulty (snd (makeMove r c p s)) = difficulty s \<and>
            (gameOver (snd (makeMove r c p s)) \<longleftrightarrow>
               checkWin (board (snd (makeMove r c p s))) r c p) \<and>
            winner (snd (makeMove r c p s)) =
              (if checkWin (board (snd (makeMove r c p s))) r c p then p else winner s))"
  using assms by (auto simp: makeMove_def Let_def cell_set_cell)

theorem makeMove_spec_witness:
  "wf_board (board new_engine) \<and> fst (makeMove 7 7 PLAYER new_engine) = True \<and>
   moveHistory (snd (makeMove 7 7 PLAYER new_engine)) = [\<lparr>row = 7, col = 7, player = PLAYER\<rparr>]"
proof -
  have wf: "wf_board (board new_engine)" by (simp add: new_engine_def)
  have ok: "fst (makeMove 7 7 PLAYER new_engine) = True"
    by (simp add: makeMove_def Let_def new_engine_def cell_empty_board isValidPosition_def)
  show ?thesis using wf ok makeMove_spec[OF wf, of 7 7 PLAYER] by (simp add: new_engine_def)
qed

text \<open>
  C10. \<open>makeMove\<close> does not validate the player argument: for every integer \<open>p\<close>, on an
  in-range Empty cell of an undecided game it returns true, writes \<open>p\<close> into the cell and
  pushes \<open>(r, c, p)\<close> on the history. With \<open>p = EMPTY\<close> the board is left as it was, so the
  history grows by one while the number of stones does not.
\<close>

theorem makeMove_player_unchecked:
  assumes "wf_board (board s)" "isValidPosition r c" "cell (board s) r c = EMPTY" "\<not> gameOver s"
  shows "fst (makeMove r c p s) = True \<and>
         cell (board (snd (makeMove r c p s))) r c = p \<and>
         moveHistory (snd (makeMove r c p s)) = \<lparr>row = r, col = c, player = p\<rparr> # moveHistory s \<and>
         (p = EMPTY \<longrightarrow>
            board (snd (makeMove r c p s)) = board s \<and>
            count_stones (board (snd (makeMove r c p s))) = count_stones (board s) \<and>
            length (moveHistory (snd (makeMove r c p s))) = length (moveHistory s) + 1)"
  using assms by (auto simp: makeMove_def Let_def cell_set_cell set_cell_same)

theorem makeMove_player_unchecked_witness:
  "wf_board (board new_engine) \<and> isValidPosition 7 7 \<and> cell (board new_engine) 7 7 = EMPTY \<and>
   \<not> gameOver new_engine \<and>
   fst (makeMove 7 7 EMPTY new_engine) = True \<and>
   board (snd (makeMove 7 7 EMPTY new_engine)) = board new_engine \<and>
   length (moveHistory (snd (makeMove 7 7 EMPTY new_engine))) = 1 \<and>
   fst (makeMove 7 7 5 new_engine) = True \<and>
   cell (board (snd (makeMove 7 7 5 new_engine))) 7 7 = 5"
proof -
  have h: "wf_board (board new_engine)" "isValidPosition 7 7"
    "cell (board new_engine) 7 7 = EMPTY" "\<not> gameOver new_engine"
    by (simp_all add: new_engine_def cell_empty_board isValidPosition_def)
  show ?thesis
    using h makeMove_player_unchecked[OF h, of EMPTY] makeMove_player_unchecked[OF h, of 5]
    by (simp add: new_engine_def)
qed

section \<open>Undoing moves\<close>

lemma undoMove_loop_2:
  "undoMove_loop 2 b h =
     (case h of [] \<Rightarrow> (b, [])
      | m1 # h1 \<Rightarrow> (case h1 of [] \<Rightarrow> (set_cell b (row m1) (col m1) EMPTY, [])
          | m2 # h2 \<Rightarrow> (set_cell (set_cell b (row m1) (col m1) EMPTY) (row m2) (col m2) EMPTY, h2)))"
  by (simp add: numeral_2_eq_2 split: list.splits)

text \<open>
  C9. On a well-formed engine state, \<open>undoMove\<close> returns false and changes nothing exactly
  when the history is empty. Otherwise it returns true, pops the \<open>min 2 (length history)\<close>
  most recent moves, sets the cells they name to Empty and leaves every other cell as it
  was, leaves the game undecided, clears the winner if the game was decided (whichever
  moves were undone), and keeps the difficulty.
\<close>

theorem undoMove_spec:
  assumes "wf_engine s"
  shows "((fst (undoMove s) = False \<and> snd (undoMove s) = s) \<longleftrightarrow> moveHistory s = []) \<and>
         (moveHistory s \<noteq> [] \<longrightarrow>
            fst (undoMove s) = True \<and>
            moveHistory (snd (undoMove s)) = drop (min 2 (length (moveHistory s))) (moveHistory s) \<and>
            wf_board (board (snd (undoMove s))) \<and>
            (\<forall>r c. isValidPosition r c \<longrightarrow>
               cell (board (snd (undoMove s))) r c =
                 (if \<exists>m \<in> set (take (min 2 (length (moveHistory s))) (moveHistory s)).
                       row m = r \<and> col m = c
                  then EMPTY else cell (board s) r c)) \<and>
            \<not> gameOver (snd (undoMove s)) \<and>
            winner (snd (undoMove s)) = (if gameOver s then EMPTY else winner s) \<and>
            difficulty (snd (undoMove s)) = difficulty s)"
proof (cases "moveHistory s")
  case Nil
  then show ?thesis by (simp add: undoMove_def)
next
  case (Cons m1 h1)
  note c1 = Cons
  have wf: "wf_board (board s)" and v1: "isValidPosition (row m1) (col m1)"
    using assms c1 by (simp_all add: wf_engine_def)
  show ?thesis
  proof (cases h1)
    case Nil
    then show ?thesis using c1 wf v1
      by (auto simp: undoMove_def undoMove_loop_2 Let_def cell_set_cell)
  next
    case (Cons m2 h2)
    have v2: "isValidPosition (row m2) (col m2)"
      using assms c1 Cons by (simp add: wf_engine_def)
    show ?thesis using c1 Cons wf v1 v2
      by (auto simp: undoMove_def undoMove_loop_2 Let_def cell_set_cell)
  qed
qed

theorem undoMove_spec_witness:
  "wf_engine (new_engine\<lparr>board := set_cell empty_board 7 7 PLAYER, gameOver := True,
                winner := PLAYER,
                moveHistory := [\<lparr>row = 7, col = 7, player = PLAYER\<rparr>]\<rparr>) \<and>
   undoMove (new_engine\<lparr>board := set_cell empty_board 7 7 PLAYER, gameOver := True,
                winner := PLAYER,
                moveHistory := [\<lparr>row = 7, col = 7, player = PLAYER\<rparr>]\<rparr>) =
     (True, new_engine)"
proof -
  let ?s = "new_engine\<lparr>board := set_cell empty_board 7 7 PLAYER, gameOver := True,
                winner := PLAYER,
                moveHistory := [\<lparr>row = 7, col = 7, player = PLAYER\<rparr>]\<rparr>"
  have v: "isValidPosition 7 7" by (simp add: isValidPosition_def)
  have wf: "wf_engine ?s"
    by (simp add: wf_engine_def v)
  have b: "board (snd (undoMove ?s)) = empty_board"
    by (simp add: undoMove_def undoMove_loop_2 set_cell_restore cell_empty_board v)
  have "snd (undoMove ?s) = new_engine"
    using undoMove_spec[OF wf] b by (simp add: new_engine_def)
  moreover have "fst (undoMove ?s) = True" using undoMove_spec[OF wf] by simp
  ultimately show ?thesis using wf by (simp add: prod_eq_iff)
qed

section \<open>Move generator\<close>

lemma upto_m1_1: "[-1 .. 1] = [-1, 0, 1::int]"
  by (simp add: upto.simps)

lemma list_ex_filter: "list_ex P (filter Q xs) = list_ex (\<lambda>x. Q x \<and> P x) xs"
  by (induction xs) auto

lemma hasNeighbors_iff: "hasNeighbors b r c = occupied_neighbor b r c"
  by (simp add: hasNeighbors_def occupied_neighbor_def moore_neighbors_def upto_m1_1 Let_def
      list_ex_filter)

lemma occupied_neighbor_iff:
  "occupied_neighbor b r c \<longleftrightarrow>
     (\<exists>dr \<in> {-1, 0, 1}. \<exists>dc \<in> {-1, 0, 1}. (dr, dc) \<noteq> (0, 0) \<and>
           isValidPosition (r + dr) (c + dc) \<and> cell b (r + dr) (c + dc) \<noteq> EMPTY)"
  by (simp add: occupied_neighbor_def moore_neighbors_def list_ex_filter)

lemma fold_push_back:
  "fold (\<lambda>c moves. if P c then moves @ [f c] else moves) cs acc = acc @ map f (filter P cs)"
  by (induction cs arbitrary: acc) simp_all

lemma fold_append_rows: "fold (\<lambda>r moves. moves @ g r) rs acc = acc @ concat (map g rs)"
  by (induction rs arbitrary: acc) simp_all

lemma scan_cells:
  "fold (\<lambda>r moves. fold (\<lambda>c moves. if P r c then moves @ [(r, c)] else moves) cs moves) rs acc =
   acc @ filter (\<lambda>(r, c). P r c) (concat (map (\<lambda>r. map (\<lambda>c. (r, c)) cs) rs))"
  by (simp add: fold_push_back fold_append_rows filter_concat filter_map comp_def)

lemma generateMoves_eq:
  "generateMoves b = (if near_cells b = [] then empty_cells b else near_cells b)"
  unfolding generateMoves_def Let_def near_cells_def empty_cells_def row_major_cells_def
    hasNeighbors_iff scan_cells
  by (simp only: append_Nil if_cancel split: if_splits) simp

lemma sorted_rows:
  assumes "sorted_wrt (<) rs" "sorted_wrt (<) cs"
  shows "sorted_wrt row_major_less (concat (map (\<lambda>r. map (\<lambda>c. (r, c)) cs) rs))"
  using assms
proof (induction rs)
  case Nil
  then show ?case by simp
next
  case (Cons r rs)
  have "sorted_wrt row_major_less (map (\<lambda>c. (r, c)) cs)"
    using Cons.prems(2) by (simp add: sorted_wrt_map row_major_less_def)
  moreover have "\<forall>x \<in> set (map (\<lambda>c. (r, c)) cs).
      \<forall>y \<in> set (concat (map (\<lambda>r. map (\<lambda>c. (r, c)) cs) rs)). row_major_less x y"
    using Cons.prems(1) by (auto simp: row_major_less_def)
  moreover have "sorted_wrt row_major_less (concat (map (\<lambda>r. map (\<lambda>c. (r, c)) cs) rs))"
    using Cons by simp
  ultimately show ?case
    by (simp add: sorted_wrt_append)
qed

lemma sorted_row_major_cells: "sorted_wrt row_major_less row_major_cells"
  unfolding row_major_cells_def
  by (rule sorted_rows) (simp_all add: strict_sorted_iff)

lemma set_row_major_cells: "set row_major_cells = {(r, c). isValidPosition r c}"
  by (auto simp: row_major_cells_def isValidPosition_def image_iff)

lemma near_cells_empty_board: "near_cells empty_board = []"
  unfolding near_cells_def filter_empty_conv set_row_major_cells occupied_neighbor_iff
  by (auto simp: cell_empty_board)

lemma generateMoves_sorted: "sorted_wrt row_major_less (generateMoves b)"
  unfolding generateMoves_eq near_cells_def empty_cells_def
  by (simp add: sorted_wrt_filter sorted_row_major_cells)

lemma near_cells_set:
  "set (near_cells b) =
     {(r, c). isValidPosition r c \<and> cell b r c = EMPTY \<and>
        (\<exists>dr \<in> {-1, 0, 1}. \<exists>dc \<in> {-1, 0, 1}. (dr, dc) \<noteq> (0, 0) \<and>
           isValidPosition (r + dr) (c + dc) \<and> cell b (r + dr) (c + dc) \<noteq> EMPTY)}"
  unfolding near_cells_def set_filter set_row_major_cells occupied_neighbor_iff
  by blast

lemma empty_cells_set:
  "set (empty_cells b) = {(r, c). isValidPosition r c \<and> cell b r c = EMPTY}"
  unfolding empty_cells_def set_filter set_row_major_cells by auto

text \<open>
  C8. \<open>generateMoves\<close> returns the Empty cells that have an occupied cell among their up
  to eight Moore neighbours (clipped at the board edges), or, when there is none, every
  Empty cell of the board; in both cases in row-major order. The function is \<open>const\<close>: it
  takes the board and returns the list, so it cannot change the board.
\<close>

theorem generateMoves_spec:
  "generateMoves b = (if near_cells b = [] then empty_cells b else near_cells b) \<and>
   sorted_wrt row_major_less (generateMoves b) \<and>
   set (near_cells b) =
     {(r, c). isValidPosition r c \<and> cell b r c = EMPTY \<and>
        (\<exists>dr \<in> {-1, 0, 1}. \<exists>dc \<in> {-1, 0, 1}. (dr, dc) \<noteq> (0, 0) \<and>
           isValidPosition (r + dr) (c + dc) \<and> cell b (r + dr) (c + dc) \<noteq> EMPTY)} \<and>
   set (empty_cells b) = {(r, c). isValidPosition r c \<and> cell b r c = EMPTY}"
  using generateMoves_eq[of b] generateMoves_sorted[of b] near_cells_set[of b]
    empty_cells_set[of b]
  by blast

theorem generateMoves_spec_witness:
  "generateMoves empty_board = empty_cells empty_board \<and>
   sorted_wrt row_major_less (generateMoves empty_board) \<and>
   set (generateMoves empty_board) = {(r, c). isValidPosition r c}"
  using generateMoves_spec[of empty_board]
  by (auto simp: near_cells_empty_board cell_empty_board)

lemma generateMoves_cells_empty:
  "mv \<in> set (generateMoves b) \<Longrightarrow> cell b (fst mv) (snd mv) = EMPTY"
  by (auto simp: generateMoves_eq near_cells_def empty_cells_def split: if_splits)

section \<open>The search restores the engine\<close>

lemma alphaBeta_max_frame:
  assumes "\<And>a b s'. snd (search a b s') = s'"
    and "\<forall>mv \<in> set moves. cell (board s) (fst mv) (snd mv) = EMPTY"
  shows "snd (alphaBeta_max search moves alpha beta maxEval s) = s"
  using assms(2)
proof (induction moves arbitrary: alpha maxEval)
  case Nil
  then show ?case by simp
next
  case (Cons mv moves)
  let ?s1 = "s\<lparr>board := set_cell (board s) (fst mv) (snd mv) AI\<rparr>"
  obtain e s2 where e: "search alpha beta ?s1 = (e, s2)" by (cases "search alpha beta ?s1")
  have s2: "s2 = ?s1" using assms(1)[of alpha beta ?s1] e by simp
  have restore: "s2\<lparr>board := set_cell (board s2) (fst mv) (snd mv) EMPTY\<rparr> = s"
    unfolding s2 using Cons.prems by (simp add: set_cell_restore)
  show ?case using Cons e restore by (simp add: Let_def)
qed

lemma alphaBeta_min_frame:
  assumes "\<And>a b s'. snd (search a b s') = s'"
    and "\<forall>mv \<in> set moves. cell (board s) (fst mv) (snd mv) = EMPTY"
  shows "snd (alphaBeta_min search moves alpha beta minEval s) = s"
  using assms(2)
proof (induction moves arbitrary: beta minEval)
  case Nil
  then show ?case by simp
next
  case (Cons mv moves)
  let ?s1 = "s\<lparr>board := set_cell (board s) (fst mv) (snd mv) PLAYER\<rparr>"
  obtain e s2 where e: "search alpha beta ?s1 = (e, s2)" by (cases "search alpha beta ?s1")
  have s2: "s2 = ?s1" using assms(1)[of alpha beta ?s1] e by simp
  have restore: "s2\<lparr>board := set_cell (board s2) (fst mv) (snd mv) EMPTY\<rparr> = s"
    unfolding s2 using Cons.prems by (simp add: set_cell_restore)
  show ?case using Cons e restore by (simp add: Let_def)
qed

lemma alphaBetaPruning_frame: "snd (alphaBetaPruning depth alpha beta mp s) = s"
proof (induction depth arbitrary: alpha beta mp s)
  case 0
  then show ?case by simp
next
  case (Suc depth)
  show ?case
    by (simp add: Let_def alphaBeta_max_frame alphaBeta_min_frame Suc generateMoves_cells_empty)
qed

lemma getBestMove_loop_frame:
  assumes "\<forall>mv \<in> set moves. cell (board s) (fst mv) (snd mv) = EMPTY"
  shows "snd (getBestMove_loop depth moves bestScore bestMove s) = s"
  using assms
proof (induction moves arbitrary: bestScore bestMove)
  case Nil
  then show ?case by simp
next
  case (Cons mv moves)
  let ?s1 = "s\<lparr>board := set_cell (board s) (fst mv) (snd mv) AI\<rparr>"
  obtain e s2 where e: "alphaBetaPruning depth INT_MIN INT_MAX False ?s1 = (e, s2)"
    by (cases "alphaBetaPruning depth INT_MIN INT_MAX False ?s1")
  have s2: "s2 = ?s1" using alphaBetaPruning_frame[of depth INT_MIN INT_MAX False ?s1] e by simp
  have restore: "s2\<lparr>board := set_cell (board s2) (fst mv) (snd mv) EMPTY\<rparr> = s"
    unfolding s2 using Cons.prems by (simp add: set_cell_restore)
  show ?case using Cons e restore by (simp add: Let_def)
qed

lemma getBestMove_frame: "snd (getBestMove s) = s"
  by (simp add: getBestMove_def Let_def getBestMove_loop_frame generateMoves_cells_empty)

text \<open>
  C6. \<open>getBestMove\<close> and every call of \<open>alphaBetaPruning\<close>, whatever its depth, window
  and side, and whether or not its loop is left at a cutoff, return the engine exactly as
  they found it: board, move history, game-over flag, winner and difficulty.
\<close>

theorem search_restores_engine:
  "snd (getBestMove s) = s \<and> snd (alphaBetaPruning depth alpha beta maximizingPlayer s) = s"
  by (simp add: getBestMove_frame alphaBetaPruning_frame)

section \<open>History length and stones\<close>

lemma count_row_update:
  "i < length xs \<Longrightarrow>
   length (filter P (xs[i := v])) + (if P (xs ! i) then 1 else 0) =
   length (filter P xs) + (if P v then 1 else 0)"
proof (induction xs arbitrary: i)
  case Nil
  then show ?case by simp
next
  case (Cons x xs)
  show ?case
  proof (cases i)
    case 0
    then show ?thesis by simp
  next
    case (Suc j)
    then have "j < length xs" using Cons.prems by simp
    from Cons.IH[OF this] show ?thesis using Suc by simp
  qed
qed

lemma sum_list_map_update:
  fixes f :: "'a \<Rightarrow> nat"
  assumes "i < length xs"
  shows "sum_list (map f (xs[i := x])) + f (xs ! i) = sum_list (map f xs) + f x"
proof -
  have a: "xs = take i xs @ xs ! i # drop (Suc i) xs"
    using assms by (rule id_take_nth_drop)
  have b: "xs[i := x] = take i xs @ x # drop (Suc i) xs"
    using assms by (rule upd_conv_take_nth_drop)
  have "sum_list (map f xs) = sum_list (map f (take i xs)) + f (xs ! i) + sum_list (map f (drop (Suc i) xs))"
    by (subst a) simp
  moreover have "sum_list (map f (xs[i := x])) =
      sum_list (map f (take i xs)) + f x + sum_list (map f (drop (Suc i) xs))"
    by (subst b) simp
  ultimately show ?thesis by simp
qed

lemma count_stones_set_cell:
  assumes "wf_board b" "isValidPosition r c"
  shows "count_stones (set_cell b r c v) + (if cell b r c \<noteq> EMPTY then 1 else 0) =
         count_stones b + (if v \<noteq> EMPTY then 1 else 0)"
proof -
  have r: "nat r < length b" and c: "nat c < length (b ! nat r)"
    using assms by (auto simp: wf_board_iff isValidPosition_def)
  let ?f = "\<lambda>rw. length (filter (\<lambda>v. v \<noteq> EMPTY) rw)"
  have "sum_list (map ?f (b[nat r := (b ! nat r)[nat c := v]])) + ?f (b ! nat r) =
        sum_list (map ?f b) + ?f ((b ! nat r)[nat c := v])"
    using r by (rule sum_list_map_update)
  moreover have "?f ((b ! nat r)[nat c := v]) + (if b ! nat r ! nat c \<noteq> EMPTY then 1 else 0) =
        ?f (b ! nat r) + (if v \<noteq> EMPTY then 1 else 0)"
    using c by (rule count_row_update)
  ultimately show ?thesis
    by (simp add: count_stones_def set_cell_def cell_def)
qed

lemma count_stones_empty: "count_stones empty_board = 0"
  by (simp add: count_stones_def empty_board_def)

lemma history_inv_reset: "history_inv empty_board []"
  by (simp add: history_inv_def count_stones_empty)

lemma history_inv_place:
  assumes "history_inv b h" "isValidPosition r c" "cell b r c = EMPTY" "p \<noteq> EMPTY"
  shows "history_inv (set_cell b r c p) (\<lparr>row = r, col = c, player = p\<rparr> # h)"
proof -
  have wf: "wf_board b" using assms(1) by (simp add: history_inv_def)
  have cnt: "count_stones (set_cell b r c p) = Suc (count_stones b)"
    using count_stones_set_cell[OF wf assms(2), of p] assms(3,4) by simp
  have fresh: "(r, c) \<notin> set (map (\<lambda>m. (row m, col m)) h)"
    using assms(1,3) by (auto simp: history_inv_def)
  have cells: "\<forall>m \<in> set h. cell (set_cell b r c p) (row m) (col m) \<noteq> EMPTY"
    using assms(1,2,4) wf by (auto simp: history_inv_def cell_set_cell)
  show ?thesis
    using assms(1,2,4) wf cnt fresh cells
    by (auto simp: history_inv_def cell_set_cell)
qed

lemma history_inv_pop:
  assumes "history_inv b (m # h)"
  shows "history_inv (set_cell b (row m) (col m) EMPTY) h"
proof -
  have wf: "wf_board b" and v: "isValidPosition (row m) (col m)"
    and occ: "cell b (row m) (col m) \<noteq> EMPTY"
    and rest: "\<forall>m' \<in> set h. isValidPosition (row m') (col m') \<and> cell b (row m') (col m') \<noteq> EMPTY"
    and fresh: "(row m, col m) \<notin> (\<lambda>m. (row m, col m)) ` set h"
    and dist: "distinct (map (\<lambda>m. (row m, col m)) h)"
    and len: "Suc (length h) = count_stones b"
    using assms by (simp_all add: history_inv_def)
  have cnt: "Suc (count_stones (set_cell b (row m) (col m) EMPTY)) = count_stones b"
    using count_stones_set_cell[OF wf v, of EMPTY] occ by simp
  have cells: "cell (set_cell b (row m) (col m) EMPTY) (row m') (col m') \<noteq> EMPTY"
    if m': "m' \<in> set h" for m'
  proof -
    have "\<not> (row m' = row m \<and> col m' = col m)"
    proof
      assume "row m' = row m \<and> col m' = col m"
      then have "(row m, col m) = (\<lambda>m. (row m, col m)) m'" by simp
      then have "(row m, col m) \<in> (\<lambda>m. (row m, col m)) ` set h"
        using m' by (rule image_eqI)
      then show False using fresh by simp
    qed
    moreover have "isValidPosition (row m') (col m')" "cell b (row m') (col m') \<noteq> EMPTY"
      using rest m' by simp_all
    ultimately show ?thesis
      using cell_set_cell[OF wf v, of "row m'" "col m'" EMPTY] by simp
  qed
  show ?thesis
    unfolding history_inv_def
    using wf rest dist len cnt cells by simp
qed

lemma history_inv_undoMove_loop:
  "history_inv b h \<Longrightarrow> history_inv (fst (undoMove_loop n b h)) (snd (undoMove_loop n b h))"
proof (induction n b h rule: undoMove_loop.induct)
  case (3 n b lastMove h)
  then show ?case using history_inv_pop[of b lastMove h] by simp
qed simp_all

lemma history_inv_makeMove:
  assumes "history_inv (board s) (moveHistory s)" "p = PLAYER \<or> p = AI"
  shows "history_inv (board (snd (makeMove r c p s))) (moveHistory (snd (makeMove r c p s)))"
  using assms history_inv_place[of "board s" "moveHistory s" r c p]
  by (auto simp: makeMove_def Let_def)

lemma history_inv_undoMove:
  assumes "history_inv (board s) (moveHistory s)"
  shows "history_inv (board (snd (undoMove s))) (moveHistory (snd (undoMove s)))"
  using assms history_inv_undoMove_loop[of "board s" "moveHistory s" 2]
  by (auto simp: undoMove_def Let_def split: prod.splits)

lemma history_inv_apply:
  assumes "history_inv (board s) (moveHistory s)" "player_ok op"
  shows "history_inv (board (apply_operation op s)) (moveHistory (apply_operation op s))"
proof (cases op)
  case (MakeMove r c p)
  then show ?thesis using assms history_inv_makeMove by simp
next
  case UndoMove
  then show ?thesis using assms history_inv_undoMove by simp
next
  case ResetGame
  then show ?thesis by (simp add: resetGame_def history_inv_reset)
next
  case GetBestMove
  then show ?thesis using assms by (simp add: getBestMove_frame)
next
  case (SetDifficulty level)
  then show ?thesis using assms by (simp add: setDifficulty_def)
qed

lemma history_inv_run:
  "history_inv (board s) (moveHistory s) \<Longrightarrow> list_all player_ok ops \<Longrightarrow>
   history_inv (board (run ops s)) (moveHistory (run ops s))"
  unfolding run_def
proof (induction ops arbitrary: s)
  case Nil
  then show ?case by simp
next
  case (Cons op ops)
  then show ?case using history_inv_apply[of s op] by simp
qed

text \<open>
  C7. Starting from a freshly constructed engine, or from any engine just reset, after every
  sequence of \<open>makeMove\<close> with one of the two player codes, \<open>undoMove\<close>, \<open>resetGame\<close>,
  \<open>getBestMove\<close> (and \<open>setDifficulty\<close>), the length of the move history equals the
  number of non-Empty cells of the board.
\<close>

theorem history_length_invariant:
  assumes "list_all player_ok ops"
  shows "length (moveHistory (run ops new_engine)) = count_stones (board (run ops new_engine)) \<and>
         length (moveHistory (run ops (resetGame s0))) = count_stones (board (run ops (resetGame s0)))"
proof -
  have "history_inv (board new_engine) (moveHistory new_engine)"
    by (simp add: new_engine_def history_inv_reset)
  moreover have "history_inv (board (resetGame s0)) (moveHistory (resetGame s0))"
    by (simp add: resetGame_def history_inv_reset)
  ultimately show ?thesis
    using history_inv_run[OF _ assms] by (simp add: history_inv_def)
qed

theorem history_length_invariant_witness:
  "list_all player_ok [MakeMove 7 7 PLAYER, GetBestMove, MakeMove 7 8 AI, UndoMove] \<and>
   length (moveHistory (run [MakeMove 7 7 PLAYER, GetBestMove, MakeMove 7 8 AI, UndoMove]
     new_engine)) =
   count_stones (board (run [MakeMove 7 7 PLAYER, GetBestMove, MakeMove 7 8 AI, UndoMove]
     new_engine))"
  using history_length_invariant[of "[MakeMove 7 7 PLAYER, GetBestMove, MakeMove 7 8 AI, UndoMove]"]
  by simp

section \<open>Evaluator\<close>

lemma fold_add:
  fixes g :: "'a \<Rightarrow> int"
  shows "fold (\<lambda>x score. score + g x) xs s = s + sum_list (map g xs)"
  by (induction xs arbitrary: s) simp_all

lemma fold_fold_add:
  fixes g :: "'a \<Rightarrow> 'b \<Rightarrow> int"
  shows "fold (\<lambda>x score. fold (\<lambda>y score. score + g x y) ys score) xs s =
         s + sum_list (map (\<lambda>x. sum_list (map (g x) ys)) xs)"
  by (induction xs arbitrary: s) (simp_all add: fold_add)

lemma sum_list_swap:
  fixes g :: "'a \<Rightarrow> 'b \<Rightarrow> int"
  shows "sum_list (map (\<lambda>x. sum_list (map (g x) ys)) xs) =
         sum_list (map (\<lambda>y. sum_list (map (\<lambda>x. g x y) xs)) ys)"
  by (induction xs) (simp_all add: sum_list_addf)

lemma sum_list_pairs:
  fixes h :: "'a \<times> 'b \<Rightarrow> int"
  shows "sum_list (map (\<lambda>x. sum_list (map (\<lambda>y. h (x, y)) ys)) xs) =
         sum_list (map h (concat (map (\<lambda>x. map (\<lambda>y. (x, y)) ys) xs)))"
  by (induction xs) (simp_all add: comp_def)

lemma count_fold:
  "fold (\<lambda>i (aiCount, playerCount).
           if f i = AI then (aiCount + 1, playerCount)
           else if f i = PLAYER then (aiCount, playerCount + 1)
           else (aiCount, playerCount)) is (a, p) =
   (a + int (length (filter (\<lambda>i. f i = AI) is)),
    p + int (length (filter (\<lambda>i. f i = PLAYER) is)))"
  by (induction "is" arbitrary: a p) simp_all

lemma count_window_eq:
  "count_window b pos =
     (int (stones_of b AI (map pos [0 .. 4])), int (stones_of b PLAYER (map pos [0 .. 4])))"
  unfolding count_window_def count_fold stones_of_def
  by (simp add: filter_map comp_def case_prod_beta)

lemma stones_of_le: "stones_of b p w \<le> length w"
  by (simp add: stones_of_def)

lemma evaluateSequence_eq:
  assumes "a \<le> 5" "p \<le> 5"
  shows "evaluateSequence (int a) (int p) =
     (if a > 0 \<and> p > 0 then 0
      else if a = 0 \<and> p = 0 then 0
      else if p = 0 then 10 ^ a
      else - (10 ^ p))"
proof -
  have a: "a = 0 \<or> a = 1 \<or> a = 2 \<or> a = 3 \<or> a = 4 \<or> a = 5" using assms(1) by arith
  have p: "p = 0 \<or> p = 1 \<or> p = 2 \<or> p = 3 \<or> p = 4 \<or> p = 5" using assms(2) by arith
  show ?thesis
  proof (cases "a = 0")
    case True
    then show ?thesis using p by (auto simp: evaluateSequence_def)
  next
    case False
    then show ?thesis using a by (auto simp: evaluateSequence_def)
  qed
qed

lemma window_value_eq: "window_value b pos = window_score b (map pos [0 .. 4])"
proof -
  have l: "length (map pos [0 .. 4]) = 5" by simp
  have "stones_of b AI (map pos [0 .. 4]) \<le> 5" "stones_of b PLAYER (map pos [0 .. 4]) \<le> 5"
    using stones_of_le[of b _ "map pos [0 .. 4]"] unfolding l by blast+
  then show ?thesis
    unfolding window_value_def count_window_eq window_score_def Let_def
    by (simp add: evaluateSequence_eq)
qed

lemma windows_row:
  "windows_along (0, 1) =
     map (window_cells (0, 1)) (concat (map (\<lambda>r. map (\<lambda>c. (r, c)) [0 .. 10]) [0 .. 14]))"
  by code_simp

lemma windows_col:
  "windows_along (1, 0) =
     map (window_cells (1, 0)) (concat (map (\<lambda>r. map (\<lambda>c. (r, c)) [0 .. 14]) [0 .. 10]))"
  by code_simp

lemma windows_diag:
  "windows_along (1, 1) =
     map (window_cells (1, 1)) (concat (map (\<lambda>r. map (\<lambda>c. (r, c)) [0 .. 10]) [0 .. 10]))"
  by code_simp

lemma windows_anti:
  "windows_along (1, -1) =
     map (window_cells (1, -1)) (concat (map (\<lambda>r. map (\<lambda>c. (r, c)) [4 .. 14]) [0 .. 10]))"
  by code_simp

lemma window_value_row: "window_value b (\<lambda>i. (r, c + i)) = window_score b (window_cells (0, 1) (r, c))"
  by (simp add: window_value_eq window_cells_def)

lemma window_value_col: "window_value b (\<lambda>i. (r + i, c)) = window_score b (window_cells (1, 0) (r, c))"
  by (simp add: window_value_eq window_cells_def)

lemma window_value_diag:
  "window_value b (\<lambda>i. (r + i, c + i)) = window_score b (window_cells (1, 1) (r, c))"
  by (simp add: window_value_eq window_cells_def)

lemma window_value_anti:
  "window_value b (\<lambda>i. (r + i, c - i)) = window_score b (window_cells (1, -1) (r, c))"
  by (simp add: window_value_eq window_cells_def)

lemma sum_windows:
  "sum_list (map (\<lambda>r. sum_list (map (\<lambda>c. window_score b (window_cells d (r, c))) cs)) rs) =
   sum_list (map (window_score b)
     (map (window_cells d) (concat (map (\<lambda>r. map (\<lambda>c. (r, c)) cs) rs))))"
  using sum_list_pairs[of "\<lambda>x. window_score b (window_cells d x)" cs rs]
  by (simp add: comp_def)

lemma evaluateBoard_sum:
  "evaluateBoard b = sum_list (map (window_score b) all_windows)"
proof -
  have row: "sum_list (map (window_score b) (windows_along (0, 1))) =
      sum_list (map (\<lambda>r. sum_list (map (\<lambda>c. window_value b (\<lambda>i. (r, c + i))) [0 .. 10])) [0 .. 14])"
    unfolding windows_row window_value_row sum_windows ..
  have col: "sum_list (map (window_score b) (windows_along (1, 0))) =
      sum_list (map (\<lambda>c. sum_list (map (\<lambda>r. window_value b (\<lambda>i. (r + i, c))) [0 .. 10])) [0 .. 14])"
    unfolding windows_col window_value_col
    by (subst sum_list_swap) (simp only: sum_windows)
  have diag: "sum_list (map (window_score b) (windows_along (1, 1))) =
      sum_list (map (\<lambda>r. sum_list (map (\<lambda>c. window_value b (\<lambda>i. (r + i, c + i))) [0 .. 10])) [0 .. 10])"
    unfolding windows_diag window_value_diag sum_windows ..
  have anti: "sum_list (map (window_score b) (windows_along (1, -1))) =
      sum_list (map (\<lambda>r. sum_list (map (\<lambda>c. window_value b (\<lambda>i. (r + i, c - i))) [4 .. 14])) [0 .. 10])"
    unfolding windows_anti window_value_anti sum_windows ..
  have "sum_list (map (window_score b) all_windows) =
      sum_list (map (window_score b) (windows_along (0, 1))) +
      sum_list (map (window_score b) (windows_along (1, 0))) +
      sum_list (map (window_score b) (windows_along (1, 1))) +
      sum_list (map (window_score b) (windows_along (1, -1)))"
    by (simp add: all_windows_def directions_def)
  also have "\<dots> = evaluateBoard b"
    unfolding row col diag anti evaluateBoard_def Let_def fold_fold_add
    by (simp del: upto_rec_numeral)
  finally show ?thesis by simp
qed

lemma length_all_windows: "length all_windows = 572"
  by (simp add: all_windows_def directions_def windows_row windows_col windows_diag windows_anti
      length_concat comp_def sum_list_triv)

lemma window_score_bounds: "length w = 5 \<Longrightarrow> \<bar>window_score b w\<bar> \<le> 100000"
proof -
  assume l: "length w = 5"
  have le: "stones_of b AI w \<le> 5" "stones_of b PLAYER w \<le> 5"
    using stones_of_le[of b _ w] l by simp_all
  have pw: "(10::int) ^ n \<le> 100000" if "n \<le> 5" for n :: nat
    using power_increasing[of n 5 "10::int"] that by simp
  show ?thesis
    using le pw[of "stones_of b AI w"] pw[of "stones_of b PLAYER w"]
    by (auto simp: window_score_def Let_def abs_if)
qed

lemma sum_list_abs_bound:
  fixes f :: "'a \<Rightarrow> int"
  assumes "\<forall>x \<in> set xs. \<bar>f x\<bar> \<le> B"
  shows "\<bar>sum_list (map f xs)\<bar> \<le> int (length xs) * B"
  using assms by (induction xs) (auto simp: algebra_simps)

lemma all_windows_length5: "w \<in> set all_windows \<Longrightarrow> length w = 5"
  by (auto simp: all_windows_def windows_along_def window_cells_def)

lemma evaluateBoard_bounds: "\<bar>evaluateBoard b\<bar> \<le> 57200000"
proof -
  have "\<forall>w \<in> set all_windows. \<bar>window_score b w\<bar> \<le> 100000"
    using window_score_bounds all_windows_length5 by blast
  from sum_list_abs_bound[OF this] show ?thesis
    by (simp add: evaluateBoard_sum length_all_windows)
qed

lemma all_windows_set:
  "set all_windows =
     {w. \<exists>d \<in> set directions. \<exists>r c. w = window_cells d (r, c) \<and> fits_on_board w}"
proof -
  have start: "isValidPosition r c" if "fits_on_board (window_cells d (r, c))" for d r c
    using that by (simp add: fits_on_board_def window_cells_def upto.simps)
  show ?thesis
    unfolding all_windows_def windows_along_def
    by (auto simp: set_row_major_cells dest: start)
qed

text \<open>
  C3. \<open>evaluateBoard\<close> is the sum, over every window of five cells that fits fully on the
  board along a row, a column or one of the two diagonals, of the score of the window: 0
  when it holds stones of both players or no stone, 10, 100, 1000, 10000, 100000 for 1 to 5
  stones of the automated player alone, and the same negated for the opponent alone.
\<close>

theorem evaluateBoard_spec:
  "evaluateBoard b = sum_list (map (window_score b) all_windows) \<and>
   set all_windows =
     {w. \<exists>d \<in> set directions. \<exists>r c. w = window_cells d (r, c) \<and> fits_on_board w}"
  using evaluateBoard_sum all_windows_set by simp

section \<open>Win detector\<close>

lemma checkWin_h_scan: "checkWin_h b r p cs n = run_scan (map (\<lambda>c. cell b r c = p) cs) n"
  by (induction cs arbitrary: n) simp_all

lemma checkWin_v_scan: "checkWin_v b c p rs n = run_scan (map (\<lambda>r. cell b r c = p) rs) n"
  by (induction rs arbitrary: n) simp_all

lemma checkWin_d1_scan:
  "checkWin_d1 b r c p is n =
     run_scan (map (\<lambda>i. cell b (r + i) (c + i) = p)
       (filter (\<lambda>i. isValidPosition (r + i) (c + i)) is)) n"
  by (induction "is" arbitrary: n) (simp_all add: Let_def isValidPosition_def)

lemma checkWin_d2_scan:
  "checkWin_d2 b r c p is n =
     run_scan (map (\<lambda>i. cell b (r + i) (c - i) = p)
       (filter (\<lambda>i. isValidPosition (r + i) (c - i)) is)) n"
  by (induction "is" arbitrary: n) (simp_all add: Let_def isValidPosition_def)

lemma run_scan_interval_gen:
  assumes "0 \<le> n" "n < 5" "\<forall>i. lo - n \<le> i \<and> i < lo \<longrightarrow> P i"
  shows "run_scan (map P [lo .. hi]) n \<longleftrightarrow>
         (\<exists>k. lo - n \<le> k \<and> k + 4 \<le> hi \<and> (\<forall>j. 0 \<le> j \<and> j \<le> 4 \<longrightarrow> P (k + j)))"
  using assms
proof (induction "nat (hi + 1 - lo)" arbitrary: lo n)
  case 0
  then have e: "[lo .. hi] = []" by simp
  have "\<not> (\<exists>k. lo - n \<le> k \<and> k + 4 \<le> hi)" using 0 by auto
  then show ?case unfolding e by auto
next
  case (Suc m)
  then have le: "lo \<le> hi" and m: "m = nat (hi + 1 - (lo + 1))" by linarith+
  have e: "[lo .. hi] = lo # [lo + 1 .. hi]" using le by (rule upto_rec1)
  show ?case
  proof (cases "P lo")
    case False
    have ih: "run_scan (map P [lo + 1 .. hi]) 0 \<longleftrightarrow>
        (\<exists>k. lo + 1 - 0 \<le> k \<and> k + 4 \<le> hi \<and> (\<forall>j. 0 \<le> j \<and> j \<le> 4 \<longrightarrow> P (k + j)))"
      by (rule Suc.hyps(1)[OF m]) auto
    have "(\<exists>k. lo - n \<le> k \<and> k + 4 \<le> hi \<and> (\<forall>j. 0 \<le> j \<and> j \<le> 4 \<longrightarrow> P (k + j))) \<longleftrightarrow>
          (\<exists>k. lo + 1 \<le> k \<and> k + 4 \<le> hi \<and> (\<forall>j. 0 \<le> j \<and> j \<le> 4 \<longrightarrow> P (k + j)))"
      (is "?A \<longleftrightarrow> ?B")
    proof
      assume ?A
      then obtain k where k: "lo - n \<le> k" "k + 4 \<le> hi" "\<forall>j. 0 \<le> j \<and> j \<le> 4 \<longrightarrow> P (k + j)"
        by blast
      have "lo + 1 \<le> k"
      proof (rule ccontr)
        assume "\<not> lo + 1 \<le> k"
        then have "0 \<le> lo - k \<and> lo - k \<le> 4" using k(1) Suc.prems by linarith
        then have "P (k + (lo - k))" using k(3) by blast
        then show False using False by simp
      qed
      then show ?B using k by blast
    next
      assume ?B
      then obtain k where k: "lo + 1 \<le> k" "k + 4 \<le> hi" "\<forall>j. 0 \<le> j \<and> j \<le> 4 \<longrightarrow> P (k + j)"
        by blast
      have "lo - n \<le> k" using k(1) Suc.prems by linarith
      then show ?A using k by blast
    qed
    then show ?thesis unfolding e using False ih by simp
  next
    case True
    show ?thesis
    proof (cases "n + 1 \<ge> 5")
      case n4: True
      have "lo - n \<le> lo - 4 \<and> (lo - 4) + 4 \<le> hi" using n4 Suc.prems le by linarith
      moreover have "\<forall>j. 0 \<le> j \<and> j \<le> 4 \<longrightarrow> P ((lo - 4) + j)"
      proof (intro allI impI)
        fix j :: int assume j: "0 \<le> j \<and> j \<le> 4"
        show "P ((lo - 4) + j)"
        proof (cases "j = 4")
          case True
          then show ?thesis using \<open>P lo\<close> by simp
        next
          case False
          then have "lo - n \<le> (lo - 4) + j \<and> (lo - 4) + j < lo" using j n4 Suc.prems by linarith
          then show ?thesis using Suc.prems(3) by blast
        qed
      qed
      ultimately have "\<exists>k. lo - n \<le> k \<and> k + 4 \<le> hi \<and> (\<forall>j. 0 \<le> j \<and> j \<le> 4 \<longrightarrow> P (k + j))"
        by blast
      then show ?thesis unfolding e using True n4 by simp
    next
      case n3: False
      have pre: "\<forall>i. (lo + 1) - (n + 1) \<le> i \<and> i < lo + 1 \<longrightarrow> P i"
      proof (intro allI impI)
        fix i assume i: "(lo + 1) - (n + 1) \<le> i \<and> i < lo + 1"
        show "P i"
        proof (cases "i = lo")
          case True
          then show ?thesis using \<open>P lo\<close> by simp
        next
          case False
          then have "lo - n \<le> i \<and> i < lo" using i by linarith
          then show ?thesis using Suc.prems(3) by blast
        qed
      qed
      have ih: "run_scan (map P [lo + 1 .. hi]) (n + 1) \<longleftrightarrow>
        (\<exists>k. (lo + 1) - (n + 1) \<le> k \<and> k + 4 \<le> hi \<and> (\<forall>j. 0 \<le> j \<and> j \<le> 4 \<longrightarrow> P (k + j)))"
        using Suc.prems n3 by (intro Suc.hyps(1)[OF m] pre) linarith+
      show ?thesis unfolding e using True n3 ih by simp
    qed
  qed
qed

lemma run_scan_interval:
  "run_scan (map P [lo .. hi]) 0 \<longleftrightarrow>
     (\<exists>k. lo \<le> k \<and> k + 4 \<le> hi \<and> (\<forall>j. 0 \<le> j \<and> j \<le> 4 \<longrightarrow> P (k + j)))"
proof -
  have "\<forall>i. lo - 0 \<le> i \<and> i < lo \<longrightarrow> P i" by auto
  from run_scan_interval_gen[OF _ _ this, of hi] show ?thesis by simp
qed

lemma filter_upto:
  "filter (\<lambda>i. l \<le> i \<and> i \<le> h) [a .. b] = [max a l .. min b h]"
  by (rule sorted_distinct_set_unique) (auto simp: sorted_wrt_filter)

lemma line_runs:
  fixes x :: int
  shows "(\<exists>k'. max 0 (x - 4) \<le> k' \<and> k' + 4 \<le> min 14 (x + 4) \<and> (\<forall>j. 0 \<le> j \<and> j \<le> 4 \<longrightarrow> Q (k' + j))) \<longleftrightarrow>
   (\<exists>k \<in> {-4 .. 0}. \<forall>j \<in> {0 .. 4}. (0 \<le> x + (k + j) \<and> x + (k + j) < 15) \<and> Q (x + (k + j)))"
  (is "?A \<longleftrightarrow> ?B")
proof
  assume ?A
  then obtain k' where k': "max 0 (x - 4) \<le> k'" "k' + 4 \<le> min 14 (x + 4)"
    "\<forall>j. 0 \<le> j \<and> j \<le> 4 \<longrightarrow> Q (k' + j)" by blast
  have "k' - x \<in> {-4 .. 0}" using k'(1,2) by auto
  moreover have "\<forall>j \<in> {0 .. 4}. (0 \<le> x + ((k' - x) + j) \<and> x + ((k' - x) + j) < 15) \<and> Q (x + ((k' - x) + j))"
    using k' by auto
  ultimately show ?B by blast
next
  assume ?B
  then obtain k where k: "k \<in> {-4 .. 0}"
    "\<forall>j \<in> {0 .. 4}. (0 \<le> x + (k + j) \<and> x + (k + j) < 15) \<and> Q (x + (k + j))" by blast
  have "0 \<le> x + (k + 0)" "x + (k + 4) < 15"
    using bspec[OF k(2), of 0] bspec[OF k(2), of 4] by simp_all
  then have "max 0 (x - 4) \<le> x + k \<and> (x + k) + 4 \<le> min 14 (x + 4)" using k(1) by auto
  moreover have "\<forall>j. 0 \<le> j \<and> j \<le> 4 \<longrightarrow> Q ((x + k) + j)"
    using k(2) by (auto simp: add.assoc)
  ultimately show ?A by blast
qed

lemma diag_runs:
  fixes l h :: int
  assumes "\<And>i. V i \<longleftrightarrow> l \<le> i \<and> i \<le> h"
  shows "(\<exists>k. max (-4) l \<le> k \<and> k + 4 \<le> min 4 h \<and> (\<forall>j. 0 \<le> j \<and> j \<le> 4 \<longrightarrow> Q (k + j))) \<longleftrightarrow>
         (\<exists>k \<in> {-4 .. 0}. \<forall>j \<in> {0 .. 4}. V (k + j) \<and> Q (k + j))"
  (is "?A \<longleftrightarrow> ?B")
proof
  assume ?A
  then obtain k where k: "max (-4) l \<le> k" "k + 4 \<le> min 4 h"
    "\<forall>j. 0 \<le> j \<and> j \<le> 4 \<longrightarrow> Q (k + j)" by blast
  have "k \<in> {-4 .. 0}" using k(1,2) by auto
  moreover have "\<forall>j \<in> {0 .. 4}. V (k + j) \<and> Q (k + j)"
    using k by (auto simp: assms)
  ultimately show ?B by blast
next
  assume ?B
  then obtain k where k: "k \<in> {-4 .. 0}" "\<forall>j \<in> {0 .. 4}. V (k + j) \<and> Q (k + j)" by blast
  have "V (k + 0)" "V (k + 4)"
    using bspec[OF k(2), of 0] bspec[OF k(2), of 4] by simp_all
  then have "max (-4) l \<le> k \<and> k + 4 \<le> min 4 h" using k(1) by (auto simp: assms)
  moreover have "\<forall>j. 0 \<le> j \<and> j \<le> 4 \<longrightarrow> Q (k + j)" using k(2) by auto
  ultimately show ?A by blast
qed

lemma five_run_diag:
  "five_run b p r c (1, 1) k \<longleftrightarrow>
     (\<forall>j \<in> {0 .. 4}. isValidPosition (r + (k + j)) (c + (k + j)) \<and>
        cell b (r + (k + j)) (c + (k + j)) = p)"
  by (simp add: five_run_def list_all_iff)

lemma five_run_anti:
  "five_run b p r c (1, -1) k \<longleftrightarrow>
     (\<forall>j \<in> {0 .. 4}. isValidPosition (r + (k + j)) (c - (k + j)) \<and>
        cell b (r + (k + j)) (c - (k + j)) = p)"
proof -
  have e: "c + (k + j) * - 1 = c - (k + j)" for j by simp
  show ?thesis
    unfolding five_run_def list_all_iff fst_conv snd_conv e mult_1_right by simp
qed

lemma checkWin_h_iff:
  assumes "isValidPosition r c"
  shows "checkWin_h b r p [max 0 (c - 4) .. min 14 (c + 4)] 0 \<longleftrightarrow>
         list_ex (\<lambda>k. five_run b p r c (0, 1) k) [-4 .. 0]"
  using assms
  unfolding checkWin_h_scan run_scan_interval
  using line_runs[of c "\<lambda>c'. cell b r c' = p"]
  by (simp add: list_ex_iff list_all_iff five_run_def isValidPosition_def)

lemma checkWin_v_iff:
  assumes "isValidPosition r c"
  shows "checkWin_v b c p [max 0 (r - 4) .. min 14 (r + 4)] 0 \<longleftrightarrow>
         list_ex (\<lambda>k. five_run b p r c (1, 0) k) [-4 .. 0]"
  using assms
  unfolding checkWin_v_scan run_scan_interval
  using line_runs[of r "\<lambda>r'. cell b r' c = p"]
  by (simp add: list_ex_iff list_all_iff five_run_def isValidPosition_def)

lemma checkWin_d1_iff:
  "checkWin_d1 b r c p [-4 .. 4] 0 \<longleftrightarrow> list_ex (\<lambda>k. five_run b p r c (1, 1) k) [-4 .. 0]"
proof -
  have v: "isValidPosition (r + i) (c + i) \<longleftrightarrow> max (- r) (- c) \<le> i \<and> i \<le> min (14 - r) (14 - c)"
    for i by (auto simp: isValidPosition_def)
  have "checkWin_d1 b r c p [-4 .. 4] 0 \<longleftrightarrow>
      run_scan (map (\<lambda>i. cell b (r + i) (c + i) = p)
        [max (-4) (max (- r) (- c)) .. min 4 (min (14 - r) (14 - c))]) 0"
    unfolding checkWin_d1_scan v filter_upto ..
  also have "\<dots> \<longleftrightarrow> (\<exists>k \<in> {-4 .. 0}. \<forall>j \<in> {0 .. 4}.
      isValidPosition (r + (k + j)) (c + (k + j)) \<and> cell b (r + (k + j)) (c + (k + j)) = p)"
    unfolding run_scan_interval
    by (rule diag_runs[of "\<lambda>i. isValidPosition (r + i) (c + i)" _ _
          "\<lambda>i. cell b (r + i) (c + i) = p"]) (rule v)
  finally show ?thesis
    unfolding list_ex_iff five_run_diag set_upto .
qed

lemma checkWin_d2_iff:
  "checkWin_d2 b r c p [-4 .. 4] 0 \<longleftrightarrow> list_ex (\<lambda>k. five_run b p r c (1, -1) k) [-4 .. 0]"
proof -
  have v: "isValidPosition (r + i) (c - i) \<longleftrightarrow> max (- r) (c - 14) \<le> i \<and> i \<le> min (14 - r) c"
    for i by (auto simp: isValidPosition_def)
  have "checkWin_d2 b r c p [-4 .. 4] 0 \<longleftrightarrow>
      run_scan (map (\<lambda>i. cell b (r + i) (c - i) = p)
        [max (-4) (max (- r) (c - 14)) .. min 4 (min (14 - r) c)]) 0"
    unfolding checkWin_d2_scan v filter_upto ..
  also have "\<dots> \<longleftrightarrow> (\<exists>k \<in> {-4 .. 0}. \<forall>j \<in> {0 .. 4}.
      isValidPosition (r + (k + j)) (c - (k + j)) \<and> cell b (r + (k + j)) (c - (k + j)) = p)"
    unfolding run_scan_interval
    by (rule diag_runs[of "\<lambda>i. isValidPosition (r + i) (c - i)" _ _
          "\<lambda>i. cell b (r + i) (c - i) = p"]) (rule v)
  finally show ?thesis
    unfolding list_ex_iff five_run_anti set_upto .
qed

text \<open>
  C2. For a cell \<open>(r, c)\<close> of the board, \<open>checkWin\<close> returns true exactly when, in at
  least one of the four directions, the window of the offsets \<open>-4 .. 4\<close> around \<open>(r, c)\<close>,
  clipped at the board edges, contains five consecutive cells equal to \<open>p\<close> (a longer run
  contains such five).
\<close>

theorem checkWin_spec:
  assumes "wf_board b" "isValidPosition r c"
  shows "checkWin b r c p \<longleftrightarrow> wins_at b r c p"
  unfolding checkWin_def wins_at_def directions_def
  by (simp add: checkWin_h_iff[OF assms(2)] checkWin_v_iff[OF assms(2)] checkWin_d1_iff
      checkWin_d2_iff del: upto_rec_numeral)

theorem checkWin_spec_witness:
  "wf_board (set_cell (set_cell (set_cell (set_cell (set_cell empty_board 7 3 PLAYER) 7 4 PLAYER)
      7 5 PLAYER) 7 6 PLAYER) 7 7 PLAYER) \<and>
   isValidPosition 7 5 \<and>
   checkWin (set_cell (set_cell (set_cell (set_cell (set_cell empty_board 7 3 PLAYER) 7 4 PLAYER)
      7 5 PLAYER) 7 6 PLAYER) 7 7 PLAYER) 7 5 PLAYER"
proof -
  let ?b = "set_cell (set_cell (set_cell (set_cell (set_cell empty_board 7 3 PLAYER) 7 4 PLAYER)
      7 5 PLAYER) 7 6 PLAYER) 7 7 PLAYER"
  have wf: "wf_board ?b" by simp
  have v: "isValidPosition 7 5" by (simp add: isValidPosition_def)
  have w: "wins_at ?b 7 5 PLAYER" by code_simp
  show ?thesis using wf v w checkWin_spec[OF wf v, of PLAYER] by simp
qed

section \<open>Alpha-beta pruning against exhaustive minimax\<close>

lemma max_absorb: "(z::int) \<le> A \<Longrightarrow> max (max x z) A = max x A"
  by (auto simp: max_def)

lemma min_absorb: "A \<le> (z::int) \<Longrightarrow> min (min x z) A = min x A"
  by (auto simp: min_def)

lemma fold_max_ge: "x \<le> fold (\<lambda>mv acc. max acc (v mv)) mvs (x::int)"
proof (induction mvs arbitrary: x)
  case Nil
  show ?case by simp
next
  case (Cons a mvs)
  have "x \<le> max x (v a)" by simp
  also have "\<dots> \<le> fold (\<lambda>mv acc. max acc (v mv)) mvs (max x (v a))" by (rule Cons.IH)
  finally show ?case by simp
qed

lemma fold_max_absorb:
  "y \<le> x \<Longrightarrow> fold (\<lambda>mv acc. max acc (v mv)) mvs (x::int) =
     max x (fold (\<lambda>mv acc. max acc (v mv)) mvs y)"
proof (induction mvs arbitrary: x y)
  case Nil
  then show ?case by simp
next
  case (Cons a mvs)
  define A where "A = fold (\<lambda>mv acc. max acc (v mv)) mvs (max y (v a))"
  have "max y (v a) \<le> max x (v a)" using Cons.prems by auto
  from Cons.IH[OF this]
  have 1: "fold (\<lambda>mv acc. max acc (v mv)) mvs (max x (v a)) = max (max x (v a)) A"
    unfolding A_def .
  have "max y (v a) \<le> A" unfolding A_def by (rule fold_max_ge)
  then have "v a \<le> A" by linarith
  then have 2: "max (max x (v a)) A = max x A" by (rule max_absorb)
  show ?case using 1 2 unfolding A_def by simp
qed

lemma fold_min_le: "fold (\<lambda>mv acc. min acc (v mv)) mvs (x::int) \<le> x"
proof (induction mvs arbitrary: x)
  case Nil
  show ?case by simp
next
  case (Cons a mvs)
  have "fold (\<lambda>mv acc. min acc (v mv)) mvs (min x (v a)) \<le> min x (v a)" by (rule Cons.IH)
  also have "\<dots> \<le> x" by simp
  finally show ?case by simp
qed

lemma fold_min_absorb:
  "x \<le> y \<Longrightarrow> fold (\<lambda>mv acc. min acc (v mv)) mvs (x::int) =
     min x (fold (\<lambda>mv acc. min acc (v mv)) mvs y)"
proof (induction mvs arbitrary: x y)
  case Nil
  then show ?case by simp
next
  case (Cons a mvs)
  define A where "A = fold (\<lambda>mv acc. min acc (v mv)) mvs (min y (v a))"
  have "min x (v a) \<le> min y (v a)" using Cons.prems by auto
  from Cons.IH[OF this]
  have 1: "fold (\<lambda>mv acc. min acc (v mv)) mvs (min x (v a)) = min (min x (v a)) A"
    unfolding A_def .
  have "A \<le> min y (v a)" unfolding A_def by (rule fold_min_le)
  then have "A \<le> v a" by linarith
  then have 2: "min (min x (v a)) A = min x A" by (rule min_absorb)
  show ?case using 1 2 unfolding A_def by simp
qed

lemma fail_soft_refl: "fail_soft a b v v"
  by (simp add: fail_soft_def)

lemma max_cutoff:
  assumes "fail_soft alpha beta v e" "beta \<le> max alpha e" "alpha < beta" "m \<le> alpha"
    "max m v \<le> T"
  shows "fail_soft alpha beta T (max m e)"
  using assms unfolding fail_soft_def by (auto simp: max_def split: if_splits)

lemma max_low:
  assumes "fail_soft alpha beta v e" "e \<le> alpha" "m \<le> alpha"
    "fail_soft alpha beta T' R" "T' = max (max m e) T" "alpha < beta"
  shows "fail_soft alpha beta T R"
  using assms unfolding fail_soft_def by (auto simp: max_def split: if_splits)

lemma max_exact:
  assumes "alpha < e" "fail_soft e beta T R" "e \<le> T"
  shows "fail_soft alpha beta T R"
  using assms unfolding fail_soft_def by (auto simp: max_def split: if_splits)

lemma min_cutoff:
  assumes "fail_soft alpha beta v e" "min beta e \<le> alpha" "alpha < beta" "beta \<le> m"
    "T \<le> min m v"
  shows "fail_soft alpha beta T (min m e)"
  using assms unfolding fail_soft_def by (auto simp: min_def split: if_splits)

lemma min_high:
  assumes "fail_soft alpha beta v e" "beta \<le> e" "beta \<le> m"
    "fail_soft alpha beta T' R" "T' = min (min m e) T" "alpha < beta"
  shows "fail_soft alpha beta T R"
  using assms unfolding fail_soft_def by (auto simp: min_def split: if_splits)

lemma min_exact:
  assumes "e < beta" "fail_soft alpha e T R" "T \<le> e"
  shows "fail_soft alpha beta T R"
  using assms unfolding fail_soft_def by (auto simp: min_def split: if_splits)

lemma alphaBeta_max_fail_soft:
  assumes frame: "\<And>a b s'. snd (search a b s') = s'"
    and empty: "\<forall>mv \<in> set moves. cell (board s) (fst mv) (snd mv) = EMPTY"
    and sub: "\<And>mv a. mv \<in> set moves \<Longrightarrow> alpha \<le> a \<Longrightarrow> a < beta \<Longrightarrow>
        fail_soft a beta (v mv)
          (fst (search a beta (s\<lparr>board := set_cell (board s) (fst mv) (snd mv) AI\<rparr>)))"
    and win: "alpha < beta" and acc: "maxEval \<le> alpha"
  shows "fail_soft alpha beta (fold (\<lambda>mv acc. max acc (v mv)) moves maxEval)
           (fst (alphaBeta_max search moves alpha beta maxEval s))"
  using empty sub win acc
proof (induction moves arbitrary: alpha maxEval)
  case Nil
  then show ?case by (simp add: fail_soft_refl)
next
  case (Cons mv moves)
  define F where "F = (\<lambda>x. fold (\<lambda>mv acc. max acc (v mv)) moves x)"
  let ?s1 = "s\<lparr>board := set_cell (board s) (fst mv) (snd mv) AI\<rparr>"
  obtain e s2 where e: "search alpha beta ?s1 = (e, s2)" by (cases "search alpha beta ?s1")
  have s2: "s2 = ?s1" using frame[of alpha beta ?s1] e by simp
  have restore: "s2\<lparr>board := set_cell (board s2) (fst mv) (snd mv) EMPTY\<rparr> = s"
    unfolding s2 using Cons.prems(1) by (simp add: set_cell_restore)
  have fs: "fail_soft alpha beta (v mv) e"
    using Cons.prems(2)[of mv alpha] Cons.prems(3) e by simp
  have T: "fold (\<lambda>mv acc. max acc (v mv)) (mv # moves) maxEval = F (max maxEval (v mv))"
    by (simp add: F_def)
  have ge: "x \<le> F x" for x unfolding F_def by (rule fold_max_ge)
  show ?case
  proof (cases "beta \<le> max alpha e")
    case True
    then have R: "fst (alphaBeta_max search (mv # moves) alpha beta maxEval s) = max maxEval e"
      using e restore by (simp add: Let_def)
    show ?thesis unfolding R T
      by (rule max_cutoff[OF fs True Cons.prems(3,4) ge])
  next
    case False
    define R' where "R' = fst (alphaBeta_max search moves (max alpha e) beta (max maxEval e) s)"
    have R: "fst (alphaBeta_max search (mv # moves) alpha beta maxEval s) = R'"
      unfolding R'_def using False e restore by (simp add: Let_def)
    have lt: "max alpha e < beta" using False by linarith
    have ih: "fail_soft (max alpha e) beta (F (max maxEval e)) R'"
      unfolding F_def R'_def
    proof (rule Cons.IH)
      show "\<forall>mv \<in> set moves. cell (board s) (fst mv) (snd mv) = EMPTY"
        using Cons.prems(1) by simp
      show "fail_soft a beta (v mv')
          (fst (search a beta (s\<lparr>board := set_cell (board s) (fst mv') (snd mv') AI\<rparr>)))"
        if "mv' \<in> set moves" "max alpha e \<le> a" "a < beta" for mv' a
        using Cons.prems(2)[of mv' a] that by simp
      show "max alpha e < beta" by (rule lt)
      show "max maxEval e \<le> max alpha e" using Cons.prems(4) by auto
    qed
    show ?thesis
    proof (cases "e \<le> alpha")
      case True
      then have ve: "v mv \<le> e" using fs by (simp add: fail_soft_def)
      have a': "max alpha e = alpha" using True by simp
      have "max maxEval (v mv) \<le> max maxEval e" using ve by auto
      then have ab: "F (max maxEval e) = max (max maxEval e) (F (max maxEval (v mv)))"
        unfolding F_def by (rule fold_max_absorb)
      show ?thesis unfolding R T
        by (rule max_low[OF fs True Cons.prems(4) ih[unfolded a'] ab Cons.prems(3)])
    next
      case e_gt: False
      then have ae: "alpha < e" by simp
      have "e < beta" using lt by simp
      then have ev: "e = v mv" using fs ae by (simp add: fail_soft_def)
      have m': "max maxEval e = e" "max alpha e = e" using ae Cons.prems(4) by auto
      have Te: "F (max maxEval (v mv)) = F e" using ev m' by simp
      show ?thesis unfolding R T Te
        by (rule max_exact[OF ae ih[unfolded m'] ge])
    qed
  qed
qed

lemma alphaBeta_min_fail_soft:
  assumes frame: "\<And>a b s'. snd (search a b s') = s'"
    and empty: "\<forall>mv \<in> set moves. cell (board s) (fst mv) (snd mv) = EMPTY"
    and sub: "\<And>mv b. mv \<in> set moves \<Longrightarrow> alpha < b \<Longrightarrow> b \<le> beta \<Longrightarrow>
        fail_soft alpha b (v mv)
          (fst (search alpha b (s\<lparr>board := set_cell (board s) (fst mv) (snd mv) PLAYER\<rparr>)))"
    and win: "alpha < beta" and acc: "beta \<le> minEval"
  shows "fail_soft alpha beta (fold (\<lambda>mv acc. min acc (v mv)) moves minEval)
           (fst (alphaBeta_min search moves alpha beta minEval s))"
  using empty sub win acc
proof (induction moves arbitrary: beta minEval)
  case Nil
  then show ?case by (simp add: fail_soft_refl)
next
  case (Cons mv moves)
  define F where "F = (\<lambda>x. fold (\<lambda>mv acc. min acc (v mv)) moves x)"
  let ?s1 = "s\<lparr>board := set_cell (board s) (fst mv) (snd mv) PLAYER\<rparr>"
  obtain e s2 where e: "search alpha beta ?s1 = (e, s2)" by (cases "search alpha beta ?s1")
  have s2: "s2 = ?s1" using frame[of alpha beta ?s1] e by simp
  have restore: "s2\<lparr>board := set_cell (board s2) (fst mv) (snd mv) EMPTY\<rparr> = s"
    unfolding s2 using Cons.prems(1) by (simp add: set_cell_restore)
  have fs: "fail_soft alpha beta (v mv) e"
    using Cons.prems(2)[of mv beta] Cons.prems(3) e by simp
  have T: "fold (\<lambda>mv acc. min acc (v mv)) (mv # moves) minEval = F (min minEval (v mv))"
    by (simp add: F_def)
  have le: "F x \<le> x" for x unfolding F_def by (rule fold_min_le)
  show ?case
  proof (cases "min beta e \<le> alpha")
    case True
    then have R: "fst (alphaBeta_min search (mv # moves) alpha beta minEval s) = min minEval e"
      using e restore by (simp add: Let_def)
    show ?thesis unfolding R T
      by (rule min_cutoff[OF fs True Cons.prems(3,4) le])
  next
    case False
    define R' where "R' = fst (alphaBeta_min search moves alpha (min beta e) (min minEval e) s)"
    have R: "fst (alphaBeta_min search (mv # moves) alpha beta minEval s) = R'"
      unfolding R'_def using False e restore by (simp add: Let_def)
    have lt: "alpha < min beta e" using False by linarith
    have ih: "fail_soft alpha (min beta e) (F (min minEval e)) R'"
      unfolding F_def R'_def
    proof (rule Cons.IH)
      show "\<forall>mv \<in> set moves. cell (board s) (fst mv) (snd mv) = EMPTY"
        using Cons.prems(1) by simp
      show "fail_soft alpha b (v mv')
          (fst (search alpha b (s\<lparr>board := set_cell (board s) (fst mv') (snd mv') PLAYER\<rparr>)))"
        if "mv' \<in> set moves" "alpha < b" "b \<le> min beta e" for mv' b
        using Cons.prems(2)[of mv' b] that by simp
      show "alpha < min beta e" by (rule lt)
      show "min beta e \<le> min minEval e" using Cons.prems(4) by auto
    qed
    show ?thesis
    proof (cases "beta \<le> e")
      case True
      then have ve: "e \<le> v mv" using fs by (simp add: fail_soft_def)
      have b': "min beta e = beta" using True by simp
      have "min minEval e \<le> min minEval (v mv)" using ve by auto
      then have ab: "F (min minEval e) = min (min minEval e) (F (min minEval (v mv)))"
        unfolding F_def by (rule fold_min_absorb)
      show ?thesis unfolding R T
        by (rule min_high[OF fs True Cons.prems(4) ih[unfolded b'] ab Cons.prems(3)])
    next
      case e_lt: False
      then have eb: "e < beta" by simp
      have "alpha < e" using lt by simp
      then have ev: "e = v mv" using fs eb by (simp add: fail_soft_def)
      have m': "min minEval e = e" "min beta e = e" using eb Cons.prems(4) by auto
      have Te: "F (min minEval (v mv)) = F e" using ev m' by simp
      show ?thesis unfolding R T Te
        by (rule min_exact[OF eb ih[unfolded m'] le])
    qed
  qed
qed

lemma alphaBetaPruning_fail_soft:
  assumes "INT_MIN \<le> alpha" "alpha < beta" "beta \<le> INT_MAX"
  shows "fail_soft alpha beta (minimax depth mp s) (fst (alphaBetaPruning depth alpha beta mp s))"
  using assms
proof (induction depth arbitrary: alpha beta mp s)
  case 0
  show ?case by (simp add: fail_soft_refl)
next
  case (Suc depth)
  show ?case
  proof (cases "gameOver s")
    case True
    then show ?thesis by (simp add: fail_soft_refl)
  next
    case notOver: False
    have empty: "\<forall>mv \<in> set (generateMoves (board s)). cell (board s) (fst mv) (snd mv) = EMPTY"
      using generateMoves_cells_empty by blast
    show ?thesis
    proof (cases mp)
      case True
      have "fail_soft alpha beta
          (fold (\<lambda>mv acc. max acc
             (minimax depth False (s\<lparr>board := set_cell (board s) (fst mv) (snd mv) AI\<rparr>)))
             (generateMoves (board s)) INT_MIN)
          (fst (alphaBeta_max (\<lambda>alpha beta. alphaBetaPruning depth alpha beta False)
             (generateMoves (board s)) alpha beta INT_MIN s))"
      proof (rule alphaBeta_max_fail_soft[OF _ empty _ Suc.prems(2,1)])
        show "snd (alphaBetaPruning depth a b False s') = s'" for a b s'
          by (rule alphaBetaPruning_frame)
        show "fail_soft a beta
            (minimax depth False (s\<lparr>board := set_cell (board s) (fst mv) (snd mv) AI\<rparr>))
            (fst (alphaBetaPruning depth a beta False
               (s\<lparr>board := set_cell (board s) (fst mv) (snd mv) AI\<rparr>)))"
          if "alpha \<le> a" "a < beta" for mv a
          using that Suc.prems by (intro Suc.IH) auto
      qed
      then show ?thesis using True notOver by (simp add: Let_def)
    next
      case False
      have "fail_soft alpha beta
          (fold (\<lambda>mv acc. min acc
             (minimax depth True (s\<lparr>board := set_cell (board s) (fst mv) (snd mv) PLAYER\<rparr>)))
             (generateMoves (board s)) INT_MAX)
          (fst (alphaBeta_min (\<lambda>alpha beta. alphaBetaPruning depth alpha beta True)
             (generateMoves (board s)) alpha beta INT_MAX s))"
      proof (rule alphaBeta_min_fail_soft[OF _ empty _ Suc.prems(2,3)])
        show "snd (alphaBetaPruning depth a b True s') = s'" for a b s'
          by (rule alphaBetaPruning_frame)
        show "fail_soft alpha b
            (minimax depth True (s\<lparr>board := set_cell (board s) (fst mv) (snd mv) PLAYER\<rparr>))
            (fst (alphaBetaPruning depth alpha b True
               (s\<lparr>board := set_cell (board s) (fst mv) (snd mv) PLAYER\<rparr>)))"
          if "alpha < b" "b \<le> beta" for mv b
          using that Suc.prems by (intro Suc.IH) auto
      qed
      then show ?thesis using False notOver by (simp add: Let_def)
    qed
  qed
qed

lemma evaluateBoard_int_range: "INT_MIN \<le> evaluateBoard b \<and> evaluateBoard b \<le> INT_MAX"
  using evaluateBoard_bounds[of b] by (simp add: INT_MIN_def INT_MAX_def abs_le_iff)

lemma fold_max_range:
  assumes "\<forall>mv \<in> set mvs. v mv \<le> (hi::int)" "x \<le> hi"
  shows "fold (\<lambda>mv acc. max acc (v mv)) mvs x \<le> hi"
  using assms by (induction mvs arbitrary: x) simp_all

lemma fold_min_range:
  assumes "\<forall>mv \<in> set mvs. (lo::int) \<le> v mv" "lo \<le> x"
  shows "lo \<le> fold (\<lambda>mv acc. min acc (v mv)) mvs x"
  using assms by (induction mvs arbitrary: x) simp_all

lemma minimax_int_range: "INT_MIN \<le> minimax depth mp s \<and> minimax depth mp s \<le> INT_MAX"
proof (induction depth arbitrary: mp s)
  case 0
  show ?case by (simp add: evaluateBoard_int_range)
next
  case (Suc depth)
  have lt: "INT_MIN \<le> INT_MAX" by (simp add: INT_MIN_def INT_MAX_def)
  show ?case
  proof (cases "gameOver s")
    case True
    then show ?thesis by (simp add: evaluateBoard_int_range)
  next
    case False
    show ?thesis
    proof (cases mp)
      case True
      let ?v = "\<lambda>mv. minimax depth False (s\<lparr>board := set_cell (board s) (fst mv) (snd mv) AI\<rparr>)"
      have "fold (\<lambda>mv acc. max acc (?v mv)) (generateMoves (board s)) INT_MIN \<le> INT_MAX"
        by (rule fold_max_range) (simp_all add: Suc lt)
      moreover have "INT_MIN \<le> fold (\<lambda>mv acc. max acc (?v mv)) (generateMoves (board s)) INT_MIN"
        by (rule fold_max_ge)
      ultimately show ?thesis using True False by (simp add: Let_def)
    next
      case mn: False
      let ?v = "\<lambda>mv. minimax depth True (s\<lparr>board := set_cell (board s) (fst mv) (snd mv) PLAYER\<rparr>)"
      have "INT_MIN \<le> fold (\<lambda>mv acc. min acc (?v mv)) (generateMoves (board s)) INT_MAX"
        by (rule fold_min_range) (simp_all add: Suc lt)
      moreover have "fold (\<lambda>mv acc. min acc (?v mv)) (generateMoves (board s)) INT_MAX \<le> INT_MAX"
        by (rule fold_min_le)
      ultimately show ?thesis using mn False by (simp add: Let_def)
    qed
  qed
qed

lemma alphaBetaPruning_exact:
  "fst (alphaBetaPruning depth INT_MIN INT_MAX mp s) = minimax depth mp s"
proof -
  have "fail_soft INT_MIN INT_MAX (minimax depth mp s)
      (fst (alphaBetaPruning depth INT_MIN INT_MAX mp s))"
    by (rule alphaBetaPruning_fail_soft) (simp_all add: INT_MIN_def INT_MAX_def)
  then show ?thesis
    using minimax_int_range[of depth mp s] unfolding fail_soft_def by linarith
qed

lemma getBestMove_loop_minimax:
  assumes "\<forall>mv \<in> set moves. cell (board s) (fst mv) (snd mv) = EMPTY"
  shows "fst (getBestMove_loop depth moves bestScore bestMove s) =
         fst (fold (\<lambda>move (bestMove, bestScore).
                let score = minimax depth False
                              (s\<lparr>board := set_cell (board s) (fst move) (snd move) AI\<rparr>)
                in if score > bestScore then (move, score) else (bestMove, bestScore))
              moves (bestMove, bestScore))"
  using assms
proof (induction moves arbitrary: bestScore bestMove)
  case Nil
  then show ?case by simp
next
  case (Cons mv moves)
  let ?s1 = "s\<lparr>board := set_cell (board s) (fst mv) (snd mv) AI\<rparr>"
  obtain e s2 where e: "alphaBetaPruning depth INT_MIN INT_MAX False ?s1 = (e, s2)"
    by (cases "alphaBetaPruning depth INT_MIN INT_MAX False ?s1")
  have s2: "s2 = ?s1" using alphaBetaPruning_frame[of depth INT_MIN INT_MAX False ?s1] e by simp
  have ev: "e = minimax depth False ?s1"
    using alphaBetaPruning_exact[of depth False ?s1] e by simp
  have restore: "s2\<lparr>board := set_cell (board s2) (fst mv) (snd mv) EMPTY\<rparr> = s"
    unfolding s2 using Cons.prems by (simp add: set_cell_restore)
  have ih: "\<And>bs bm. fst (getBestMove_loop depth moves bs bm s) =
         fst (fold (\<lambda>move (bestMove, bestScore).
                let score = minimax depth False
                              (s\<lparr>board := set_cell (board s) (fst move) (snd move) AI\<rparr>)
                in if score > bestScore then (move, score) else (bestMove, bestScore))
              moves (bm, bs))"
    using Cons.IH Cons.prems by simp
  show ?case using e restore ih ev[symmetric] by (simp add: Let_def)
qed

lemma getBestMove_minimax: "fst (getBestMove s) = minimax_bestMove s"
  unfolding getBestMove_def minimax_bestMove_def
  using getBestMove_loop_minimax[of "generateMoves (board s)" s] generateMoves_cells_empty
  by (simp add: Let_def)

text \<open>
  C5. For every engine state and difficulty, \<open>getBestMove\<close> returns the move that the same
  depth-limited search selects when run as exhaustive minimax without cutoffs, and
  \<open>alphaBetaPruning\<close> called with the full window \<open>(INT_MIN, INT_MAX)\<close> returns the minimax
  value of the position at that depth.
\<close>

theorem alphaBeta_equals_minimax:
  "fst (getBestMove s) = minimax_bestMove s \<and>
   fst (alphaBetaPruning depth INT_MIN INT_MAX maximizingPlayer s) =
     minimax depth maximizingPlayer s"
  using getBestMove_minimax alphaBetaPruning_exact by simp

section \<open>The opening move on the empty board\<close>

lemma upto_0_4: "[0 .. 4] = [0, 1, 2, 3, 4::int]"
  by (simp add: upto.simps)

lemma all_windows_cases:
  assumes "w \<in> set all_windows"
  obtains d r c where "d \<in> set directions" "w = window_cells d (r, c)" "fits_on_board w"
  using assms unfolding all_windows_set by blast

lemma all_windows_valid:
  "w \<in> set all_windows \<Longrightarrow> x \<in> set w \<Longrightarrow> isValidPosition (fst x) (snd x)"
  by (erule all_windows_cases) (auto simp: fits_on_board_def list_all_iff)

lemma all_windows_distinct: "w \<in> set all_windows \<Longrightarrow> distinct w"
  by (erule all_windows_cases) (auto simp: directions_def window_cells_def upto_0_4)

lemma cell_two_stones:
  assumes "isValidPosition (fst p) (snd p)" "isValidPosition (fst q) (snd q)" "p \<noteq> q"
    "isValidPosition (fst x) (snd x)"
  shows "cell (two_stones p q) (fst x) (snd x) =
           (if x = p then AI else if x = q then PLAYER else EMPTY)"
  using assms
  by (auto simp: two_stones_def cell_set_cell cell_empty_board prod_eq_iff)

lemma length_filter_eq:
  "distinct w \<Longrightarrow> length (filter (\<lambda>x. x = p) w) = (if p \<in> set w then 1 else 0)"
  by (induction w) auto

lemma stones_of_two_stones:
  assumes "isValidPosition (fst p) (snd p)" "isValidPosition (fst q) (snd q)" "p \<noteq> q"
    "w \<in> set all_windows"
  shows "stones_of (two_stones p q) AI w = (if p \<in> set w then 1 else 0)"
    and "stones_of (two_stones p q) PLAYER w = (if q \<in> set w then 1 else 0)"
proof -
  have v: "isValidPosition (fst x) (snd x)" if "x \<in> set w" for x
    using all_windows_valid[OF assms(4) that] .
  have d: "distinct w" using assms(4) by (rule all_windows_distinct)
  have "filter (\<lambda>(r, c). cell (two_stones p q) r c = AI) w = filter (\<lambda>x. x = p) w"
    by (rule filter_cong) (auto simp: case_prod_beta cell_two_stones[OF assms(1,2,3) v])
  then show "stones_of (two_stones p q) AI w = (if p \<in> set w then 1 else 0)"
    unfolding stones_of_def using length_filter_eq[OF d, of p] by simp
  have "filter (\<lambda>(r, c). cell (two_stones p q) r c = PLAYER) w = filter (\<lambda>x. x = q) w"
    using assms(3)
    by (intro filter_cong) (auto simp: case_prod_beta cell_two_stones[OF assms(1,2,3) v])
  then show "stones_of (two_stones p q) PLAYER w = (if q \<in> set w then 1 else 0)"
    unfolding stones_of_def using length_filter_eq[OF d, of q] by simp
qed

lemma window_score_two_stones:
  assumes "isValidPosition (fst p) (snd p)" "isValidPosition (fst q) (snd q)" "p \<noteq> q"
    "w \<in> set all_windows"
  shows "window_score (two_stones p q) w =
           10 * (if p \<in> set w then 1 else 0) - 10 * (if q \<in> set w then 1 else 0)"
  unfolding window_score_def stones_of_two_stones[OF assms] Let_def by simp

lemma sum_list_indicator:
  "sum_list (map (\<lambda>w. 10 * (if P w then 1 else 0) - 10 * (if Q w then 1 else 0)) ws) =
   10 * (int (length (filter P ws)) - int (length (filter Q ws)))"
  by (induction ws) (auto simp: algebra_simps)

lemma evaluateBoard_two_stones:
  assumes "isValidPosition (fst p) (snd p)" "isValidPosition (fst q) (snd q)" "p \<noteq> q"
  shows "evaluateBoard (two_stones p q) =
           10 * (int (length (filter (\<lambda>w. p \<in> set w) all_windows)) -
                 int (length (filter (\<lambda>w. q \<in> set w) all_windows)))"
proof -
  have "map (window_score (two_stones p q)) all_windows =
        map (\<lambda>w. 10 * (if p \<in> set w then 1 else 0) - 10 * (if q \<in> set w then 1 else 0))
          all_windows"
    by (rule map_cong) (simp_all add: window_score_two_stones[OF assms])
  then show ?thesis
    unfolding evaluateBoard_sum by (simp only: sum_list_indicator)
qed

lemma sorted_wrt_distinct:
  "sorted_wrt R xs \<Longrightarrow> (\<And>x. \<not> R x x) \<Longrightarrow> distinct xs"
  by (induction xs) auto

lemma distinct_row_major_cells: "distinct row_major_cells"
  by (rule sorted_wrt_distinct[OF sorted_row_major_cells]) (simp add: row_major_less_def)

lemma length_filter_concat:
  "length (filter P (concat xss)) = sum_list (map (\<lambda>xs. length (filter P xs)) xss)"
  by (induction xss) simp_all

lemma fits_start_valid:
  "fits_on_board (window_cells d x) \<Longrightarrow> x \<in> set row_major_cells"
  by (cases x) (simp add: fits_on_board_def window_cells_def upto_0_4 set_row_major_cells)

lemma in_window_cells:
  "p \<in> set (window_cells d x) \<longleftrightarrow>
     x \<in> set (map (\<lambda>i. (fst p - i * fst d, snd p - i * snd d)) [0 .. 4])"
  by (cases x; cases p) (auto simp: window_cells_def upto_0_4)

lemma distinct_back:
  "d \<in> set directions \<Longrightarrow>
   distinct (map (\<lambda>i. (fst p - i * fst d, snd p - i * snd d)) [0 .. 4])"
  by (cases p) (auto simp: directions_def upto_0_4)

lemma windows_through:
  assumes "d \<in> set directions"
  shows "length (filter (\<lambda>w. p \<in> set w) (windows_along d)) =
         length (filter (\<lambda>i. fits_on_board
           (window_cells d (fst p - i * fst d, snd p - i * snd d))) [0 .. 4])"
proof -
  let ?S = "map (\<lambda>i. (fst p - i * fst d, snd p - i * snd d)) [0 .. 4]"
  let ?fits = "\<lambda>x. fits_on_board (window_cells d x)"
  have "filter (\<lambda>w. p \<in> set w) (windows_along d) =
        map (window_cells d) (filter (\<lambda>x. ?fits x \<and> x \<in> set ?S) row_major_cells)"
    unfolding windows_along_def filter_map filter_filter comp_def in_window_cells
    by (rule arg_cong[where f = "map (window_cells d)"], rule filter_cong) auto
  then have "length (filter (\<lambda>w. p \<in> set w) (windows_along d)) =
        length (filter (\<lambda>x. ?fits x \<and> x \<in> set ?S) row_major_cells)"
    by simp
  also have "\<dots> = card ({x. ?fits x \<and> x \<in> set ?S} \<inter> set row_major_cells)"
    by (rule distinct_length_filter[OF distinct_row_major_cells])
  also have "{x. ?fits x \<and> x \<in> set ?S} \<inter> set row_major_cells = {x. ?fits x} \<inter> set ?S"
    using fits_start_valid by blast
  also have "card ({x. ?fits x} \<inter> set ?S) = length (filter ?fits ?S)"
    by (rule distinct_length_filter[OF distinct_back[OF assms], symmetric])
  also have "\<dots> = length (filter (\<lambda>i. ?fits (fst p - i * fst d, snd p - i * snd d)) [0 .. 4])"
    by (simp add: filter_map comp_def del: upto_rec_numeral)
  finally show ?thesis .
qed

lemma window_count_eq: "length (filter (\<lambda>w. p \<in> set w) all_windows) = window_count p"
proof -
  have "length (filter (\<lambda>w. p \<in> set w) all_windows) =
        sum_list (map (\<lambda>d. length (filter (\<lambda>w. p \<in> set w) (windows_along d))) directions)"
    unfolding all_windows_def length_filter_concat by (simp add: comp_def)
  also have "map (\<lambda>d. length (filter (\<lambda>w. p \<in> set w) (windows_along d))) directions =
        map (\<lambda>d. length (filter (\<lambda>i. fits_on_board
          (window_cells d (fst p - i * fst d, snd p - i * snd d))) [0 .. 4])) directions"
    by (rule map_cong) (simp_all only: windows_through)
  finally show ?thesis unfolding window_count_def .
qed

lemma window_count_le: "window_count p \<le> 20"
proof -
  have "length (filter P [0 .. 4::int]) \<le> 5" for P
    using length_filter_le[of P "[0 .. 4::int]"] by simp
  then have "window_count p \<le> sum_list (map (\<lambda>d. 5) directions)"
    unfolding window_count_def by (intro sum_list_mono) blast
  then show ?thesis by (simp add: directions_def)
qed

lemma evaluateBoard_two_stones_count:
  assumes "isValidPosition (fst p) (snd p)" "isValidPosition (fst q) (snd q)" "p \<noteq> q"
  shows "evaluateBoard (two_stones p q) = 10 * (int (window_count p) - int (window_count q))"
  using evaluateBoard_two_stones[OF assms] by (simp only: window_count_eq)

lemma cell_one_stone:
  assumes "isValidPosition (fst p) (snd p)" "isValidPosition (fst x) (snd x)"
  shows "cell (one_stone p) (fst x) (snd x) = (if x = p then AI else EMPTY)"
  using assms by (auto simp: one_stone_def cell_set_cell cell_empty_board prod_eq_iff)

lemma generateMoves_subset_empty: "set (generateMoves b) \<subseteq> set (empty_cells b)"
  by (auto simp: generateMoves_eq near_cells_def empty_cells_def)

lemma one_stone_moves_valid:
  assumes "isValidPosition (fst p) (snd p)" "q \<in> set (generateMoves (one_stone p))"
  shows "isValidPosition (fst q) (snd q) \<and> q \<noteq> p"
proof -
  have "q \<in> set (empty_cells (one_stone p))"
    using assms(2) generateMoves_subset_empty by blast
  then have v: "isValidPosition (fst q) (snd q)" and e: "cell (one_stone p) (fst q) (snd q) = EMPTY"
    unfolding empty_cells_set by auto
  show ?thesis using v e cell_one_stone[OF assms(1) v] by (auto split: if_splits)
qed

lemma one_stone_moves_adjacent:
  assumes "isValidPosition (fst p) (snd p)" "isValidPosition (fst q) (snd q)" "adjacent p q"
  shows "q \<in> set (generateMoves (one_stone p))"
proof -
  have ne: "q \<noteq> p" using assms(3) by (auto simp: adjacent_def)
  have e: "cell (one_stone p) (fst q) (snd q) = EMPTY"
    using cell_one_stone[OF assms(1,2)] ne by simp
  have dr: "fst p - fst q \<in> {-1, 0, 1}" and dc: "snd p - snd q \<in> {-1, 0, 1}"
    using assms(3) by (auto simp: adjacent_def)
  have nz: "(fst p - fst q, snd p - snd q) \<noteq> (0, 0)"
    using ne by (auto simp: prod_eq_iff)
  have occ: "isValidPosition (fst q + (fst p - fst q)) (snd q + (snd p - snd q)) \<and>
      cell (one_stone p) (fst q + (fst p - fst q)) (snd q + (snd p - snd q)) \<noteq> EMPTY"
    using assms(1) cell_one_stone[OF assms(1,1)] by simp
  have "(fst q, snd q) \<in> set (near_cells (one_stone p))"
    unfolding near_cells_set using assms(2) e dr dc nz occ by blast
  then have "q \<in> set (near_cells (one_stone p))" by simp
  then show ?thesis by (auto simp: generateMoves_eq)
qed

lemma fold_min_le_elem:
  "q \<in> set qs \<Longrightarrow> fold (\<lambda>q acc. min acc (f q)) qs (x::int) \<le> f q"
proof (induction qs arbitrary: x)
  case Nil
  then show ?case by simp
next
  case (Cons a qs)
  show ?case
  proof (cases "q = a")
    case True
    have "fold (\<lambda>q acc. min acc (f q)) qs (min x (f a)) \<le> min x (f a)" by (rule fold_min_le)
    then show ?thesis using True by simp
  next
    case False
    then show ?thesis using Cons by simp
  qed
qed

lemma opening_score_le:
  assumes "isValidPosition (fst p) (snd p)" "isValidPosition (fst q) (snd q)" "adjacent p q"
  shows "opening_score p \<le> 10 * (int (window_count p) - int (window_count q))"
proof -
  have "q \<noteq> p" using assms(3) by (auto simp: adjacent_def)
  then have "evaluateBoard (two_stones p q) = 10 * (int (window_count p) - int (window_count q))"
    using evaluateBoard_two_stones_count[OF assms(1,2)] by auto
  then show ?thesis
    unfolding opening_score_def
    using fold_min_le_elem[OF one_stone_moves_adjacent[OF assms],
        of "\<lambda>q. evaluateBoard (two_stones p q)" INT_MAX]
    by simp
qed

lemma opening_score_ge:
  assumes "isValidPosition (fst p) (snd p)" "window_count p = 20"
  shows "0 \<le> opening_score p"
  unfolding opening_score_def
proof (rule fold_min_range)
  show "\<forall>q \<in> set (generateMoves (one_stone p)). 0 \<le> evaluateBoard (two_stones p q)"
  proof
    fix q assume "q \<in> set (generateMoves (one_stone p))"
    from one_stone_moves_valid[OF assms(1) this]
    have q: "isValidPosition (fst q) (snd q)" "p \<noteq> q" by blast+
    show "0 \<le> evaluateBoard (two_stones p q)"
      unfolding evaluateBoard_two_stones_count[OF assms(1) q]
      using window_count_le[of q] assms(2) by simp
  qed
  show "0 \<le> INT_MAX" by (simp add: INT_MAX_def)
qed

lemma best_keeps:
  "\<forall>y \<in> set ys. f y \<le> bs \<Longrightarrow>
   fold (\<lambda>move (bestMove, bestScore).
           let score = f move in if score > bestScore then (move, score) else (bestMove, bestScore))
     ys (bm, bs::int) = (bm, bs)"
  by (induction ys) (simp_all add: Let_def)

lemma best_below:
  "\<forall>x \<in> set xs. f x < B \<Longrightarrow> bs < B \<Longrightarrow>
   snd (fold (\<lambda>move (bestMove, bestScore).
           let score = f move in if score > bestScore then (move, score) else (bestMove, bestScore))
     xs (bm, bs::int)) < B"
  by (induction xs arbitrary: bm bs) (simp_all add: Let_def)

lemma first_strict_maximum:
  assumes "\<forall>x \<in> set xs. f x < f m" "\<forall>y \<in> set ys. f y \<le> f m" "bs < f m"
  shows "fst (fold (\<lambda>move (bestMove, bestScore).
           let score = f move in if score > bestScore then (move, score) else (bestMove, bestScore))
     (xs @ m # ys) (bm, bs::int)) = m"
proof -
  let ?step = "\<lambda>move (bestMove, bestScore).
           let score = f move in if score > bestScore then (move, score) else (bestMove, bestScore)"
  obtain bm1 bs1 where 1: "fold ?step xs (bm, bs) = (bm1, bs1)"
    by (cases "fold ?step xs (bm, bs)")
  have "bs1 < f m" using best_below[OF assms(1,3), of bm] 1 by simp
  then have 2: "?step m (bm1, bs1) = (m, f m)" by (simp add: Let_def)
  have 3: "fold ?step ys (m, f m) = (m, f m)" using assms(2) by (rule best_keeps)
  show ?thesis using 1 2 3 by simp
qed

lemma empty_cells_empty_board: "empty_cells empty_board = row_major_cells"
  unfolding empty_cells_def
  by (rule filter_True) (auto simp: set_row_major_cells cell_empty_board)

lemma generateMoves_empty_board: "generateMoves empty_board = row_major_cells"
  by (simp add: generateMoves_eq near_cells_empty_board empty_cells_empty_board)

lemma minimax_opening:
  "minimax (difficulty_depth EASY) False
     (setDifficulty EASY new_engine
        \<lparr>board := set_cell (board (setDifficulty EASY new_engine)) (fst p) (snd p) AI\<rparr>) =
   opening_score p"
  by (simp add: setDifficulty_def new_engine_def opening_score_def one_stone_def two_stones_def
      Let_def)

lemma row_major_split:
  "row_major_cells = take 64 row_major_cells @ (4, 4) # drop 65 row_major_cells"
proof -
  have l: "64 < length row_major_cells"
    by (simp add: row_major_cells_def length_concat comp_def sum_list_triv)
  have n: "row_major_cells ! 64 = (4, 4)" by code_simp
  show ?thesis using id_take_nth_drop[OF l] unfolding n by simp
qed

lemma before_ok:
  "list_all (\<lambda>p. isValidPosition (fst (toward_center p)) (snd (toward_center p)) \<and>
          adjacent p (toward_center p) \<and> window_count p < window_count (toward_center p))
        (take 64 row_major_cells)"
  by code_simp

lemma after_ok:
  "list_all (\<lambda>p. isValidPosition (fst (toward_center p)) (snd (toward_center p)) \<and>
          adjacent p (toward_center p) \<and> window_count p \<le> window_count (toward_center p))
        (drop 65 row_major_cells)"
  by code_simp

lemma window_count_44: "window_count (4, 4) = 20" "window_count (5, 5) = 20"
  by code_simp+

lemma opening_score_44: "opening_score (4, 4) = 0"
proof -
  have v: "isValidPosition (fst (4, 4)) (snd (4, 4))" "isValidPosition (fst (5, 5)) (snd (5, 5))"
    by (simp_all add: isValidPosition_def)
  have a: "adjacent (4, 4) (5, 5)" by (simp add: adjacent_def)
  have "opening_score (4, 4) \<le> 0"
    using opening_score_le[OF v a] by (simp add: window_count_44)
  moreover have "0 \<le> opening_score (4, 4)"
    by (rule opening_score_ge[OF v(1) window_count_44(1)])
  ultimately show ?thesis by simp
qed

lemma opening_score_before:
  assumes "x \<in> set (take 64 row_major_cells)"
  shows "opening_score x < 0"
proof -
  have "x \<in> set row_major_cells" using assms by (rule in_set_takeD)
  then have v: "isValidPosition (fst x) (snd x)" by (auto simp: set_row_major_cells)
  have q: "isValidPosition (fst (toward_center x)) (snd (toward_center x))"
    "adjacent x (toward_center x)" "window_count x < window_count (toward_center x)"
    using before_ok assms by (auto simp: list_all_iff)
  show ?thesis using opening_score_le[OF v q(1,2)] q(3) by simp
qed

lemma opening_score_after:
  assumes "x \<in> set (drop 65 row_major_cells)"
  shows "opening_score x \<le> 0"
proof -
  have "x \<in> set row_major_cells" using assms by (rule in_set_dropD)
  then have v: "isValidPosition (fst x) (snd x)" by (auto simp: set_row_major_cells)
  have q: "isValidPosition (fst (toward_center x)) (snd (toward_center x))"
    "adjacent x (toward_center x)" "window_count x \<le> window_count (toward_center x)"
    using after_ok assms by (auto simp: list_all_iff)
  show ?thesis using opening_score_le[OF v q(1,2)] q(3) by simp
qed

lemma minimax_bestMove_opening: "minimax_bestMove (setDifficulty EASY new_engine) = (4, 4)"
proof -
  have b: "board (setDifficulty EASY new_engine) = empty_board"
    and d: "difficulty (setDifficulty EASY new_engine) = EASY"
    by (simp_all add: setDifficulty_def new_engine_def)
  have ne: "row_major_cells \<noteq> []" using row_major_split by auto
  have "minimax_bestMove (setDifficulty EASY new_engine) =
        fst (fold (\<lambda>move (bestMove, bestScore).
               let score = opening_score move
               in if score > bestScore then (move, score) else (bestMove, bestScore))
             row_major_cells ((-1, -1), INT_MIN))"
    unfolding minimax_bestMove_def Let_def d minimax_opening
    unfolding b generateMoves_empty_board using ne by simp
  also have "\<dots> = fst (fold (\<lambda>move (bestMove, bestScore).
               let score = opening_score move
               in if score > bestScore then (move, score) else (bestMove, bestScore))
             (take 64 row_major_cells @ (4, 4) # drop 65 row_major_cells) ((-1, -1), INT_MIN))"
    using row_major_split by simp
  also have "\<dots> = (4, 4)"
    by (rule first_strict_maximum)
      (simp_all add: opening_score_44 opening_score_before opening_score_after INT_MIN_def)
  finally show ?thesis .
qed

text \<open>
  C4. The claim is that on the empty board, with difficulty \<open>EASY\<close>, \<open>getBestMove\<close>
  returns the centre cell \<open>(7, 7)\<close>, as the comment "if board is empty, place in the
  center" in \<open>getBestMove\<close> intends. The engine does not: on the empty board
  \<open>generateMoves\<close> falls back to all 225 cells, so the list of candidates is not empty and
  the centre shortcut is not taken; the search then scores every cell of the central
  7 x 7 block 0 and every other cell below 0, and the first cell of that block in row-major
  order, \<open>(4, 4)\<close>, is returned.
\<close>

theorem getBestMove_empty_board:
  "generateMoves (board (setDifficulty EASY new_engine)) \<noteq> [] \<and>
   fst (getBestMove (setDifficulty EASY new_engine)) = (4, 4) \<and>
   fst (getBestMove (setDifficulty EASY new_engine)) \<noteq> (7, 7)"
proof -
  have "board (setDifficulty EASY new_engine) = empty_board"
    by (simp add: setDifficulty_def new_engine_def)
  moreover have "row_major_cells \<noteq> []" using row_major_split by auto
  ultimately show ?thesis
    by (simp add: generateMoves_empty_board getBestMove_minimax minimax_bestMove_opening)
qed

end
